theory Spec2Isabelle
  imports Main "HOL-Library.Multiset"
begin

section \<open>Data model (src/app/page.tsx, persisted revision, lines 447-461)\<close>

text \<open>
  The interface \<^verbatim>\<open>Task\<close>. The field \<^verbatim>\<open>id\<close> is called \<open>task_id\<close> here, since \<open>id\<close> is
  the identity function of HOL. Numbers are modelled as integers: the code stores list
  lengths, list positions and readings of \<^verbatim>\<open>Date.now()\<close> only. The optional fields
  \<^verbatim>\<open>createdAt?\<close>, \<^verbatim>\<open>updatedAt?\<close> and \<^verbatim>\<open>userId?\<close> are options.
\<close>

record Task =
  task_id :: string
  title :: string
  isCompleted :: bool
  sortOrder :: int
  createdAt :: "int option"
  updatedAt :: "int option"
  userId :: "string option"

text \<open>The tagged union \<^verbatim>\<open>Action\<close>, the entries of the undo stack.\<close>

datatype Action =
  ADD_TASK Task
  | DELETE_TASK Task nat
  | TOGGLE_COMPLETE string bool
  | UPDATE_TASK string string string

text \<open>
  The state the handlers of \<^verbatim>\<open>Home\<close> read and write: the snapshot \<^verbatim>\<open>tasks\<close> that
  \<^verbatim>\<open>db.useQuery\<close> delivers, and the component state \<^verbatim>\<open>undoStack\<close>, \<^verbatim>\<open>editingId\<close> and
  \<^verbatim>\<open>newTaskTitle\<close>. Every handler runs on the state of the latest render, and the
  snapshot reflects a transaction before the next handler runs.
\<close>

record State =
  tasks :: "Task list"
  undoStack :: "Action list"
  editingId :: "string option"
  newTaskTitle :: string

definition initState :: State where
  "initState = \<lparr>tasks = [], undoStack = [], editingId = None, newTaskTitle = []\<rparr>"

section \<open>The store behind \<^verbatim>\<open>db.transact\<close>\<close>

text \<open>
  The argument of \<^verbatim>\<open>db.tx.tasks[k].update({...})\<close>: the attributes it sets. An absent
  attribute is \<open>None\<close>.
\<close>

record Patch =
  p_title :: "string option"
  p_isCompleted :: "bool option"
  p_sortOrder :: "int option"
  p_createdAt :: "int option"
  p_updatedAt :: "int option"
  p_userId :: "string option"

definition noPatch :: Patch where
  "noPatch = \<lparr>p_title = None, p_isCompleted = None, p_sortOrder = None,
     p_createdAt = None, p_updatedAt = None, p_userId = None\<rparr>"

text \<open>The spread \<^verbatim>\<open>{...task}\<close> of a whole task, as in \<^verbatim>\<open>update(newTask)\<close>.\<close>

definition patchOfTask :: "Task \<Rightarrow> Patch" where
  "patchOfTask t = \<lparr>p_title = Some (title t), p_isCompleted = Some (isCompleted t),
     p_sortOrder = Some (sortOrder t), p_createdAt = createdAt t,
     p_updatedAt = updatedAt t, p_userId = userId t\<rparr>"

datatype TxOp = Update string Patch | Delete string

definition applyPatch :: "Patch \<Rightarrow> Task \<Rightarrow> Task" where
  "applyPatch p t = t\<lparr>
     title := (case p_title p of None \<Rightarrow> title t | Some v \<Rightarrow> v),
     isCompleted := (case p_isCompleted p of None \<Rightarrow> isCompleted t | Some v \<Rightarrow> v),
     sortOrder := (case p_sortOrder p of None \<Rightarrow> sortOrder t | Some v \<Rightarrow> v),
     createdAt := (case p_createdAt p of None \<Rightarrow> createdAt t | Some v \<Rightarrow> Some v),
     updatedAt := (case p_updatedAt p of None \<Rightarrow> updatedAt t | Some v \<Rightarrow> Some v),
     userId := (case p_userId p of None \<Rightarrow> userId t | Some v \<Rightarrow> Some v)\<rparr>"

text \<open>
  The store is the external collaborator of the handlers. What is assumed of it: entities
  are keyed by their id; \<^verbatim>\<open>update\<close> merges the given attributes into the entity with
  that id and creates the entity when there is none; \<^verbatim>\<open>delete\<close> removes it and is void
  on a missing id; the snapshot lists entities in the order of their creation. An
  \<^verbatim>\<open>update\<close> that would create an entity without \<^verbatim>\<open>title\<close>, \<^verbatim>\<open>isCompleted\<close> or
  \<^verbatim>\<open>sortOrder\<close> leaves the typed snapshot \<^verbatim>\<open>Task[]\<close> that the code casts to: the model
  stops there with \<open>None\<close>.
\<close>

definition applyOp :: "TxOp \<Rightarrow> Task list \<Rightarrow> Task list option" where
  "applyOp op ts =
     (case op of
        Delete k \<Rightarrow> Some (filter (\<lambda>t. task_id t \<noteq> k) ts)
      | Update k p \<Rightarrow>
          if k \<in> set (map task_id ts)
          then Some (map (\<lambda>t. if task_id t = k then applyPatch p t else t) ts)
          else (case (p_title p, p_isCompleted p, p_sortOrder p) of
                  (Some ti, Some c, Some so) \<Rightarrow>
                    Some (ts @ [\<lparr>task_id = k, title = ti, isCompleted = c, sortOrder = so,
                      createdAt = p_createdAt p, updatedAt = p_updatedAt p,
                      userId = p_userId p\<rparr>])
                | _ \<Rightarrow> None))"

fun transact :: "TxOp list \<Rightarrow> Task list \<Rightarrow> Task list option" where
  "transact [] ts = Some ts"
| "transact (op # ops) ts =
     (case applyOp op ts of None \<Rightarrow> None | Some ts' \<Rightarrow> transact ops ts')"

section \<open>Library functions of the language\<close>

text \<open>
  \<^verbatim>\<open>String.prototype.trim\<close> removes white space and line terminators from both ends.
  A \<open>char\<close> stands for a code unit below 256; the white space and line terminators of
  the language in that range are tab, line feed, vertical tab, form feed, carriage
  return, space and no-break space.
\<close>

definition isWhiteSpace :: "char \<Rightarrow> bool" where
  "isWhiteSpace c =
     (c \<in> set [CHR 0x09, CHR 0x0A, CHR 0x0B, CHR 0x0C, CHR 0x0D, CHR 0x20, CHR 0xA0])"

definition trim :: "string \<Rightarrow> string" where
  "trim s = rev (dropWhile isWhiteSpace (rev (dropWhile isWhiteSpace s)))"

text \<open>\<^verbatim>\<open>Array.prototype.findIndex\<close>; \<open>None\<close> is its result \<^verbatim>\<open>-1\<close>.\<close>

fun findIndex :: "('a \<Rightarrow> bool) \<Rightarrow> 'a list \<Rightarrow> nat option" where
  "findIndex P [] = None"
| "findIndex P (x # xs) = (if P x then Some 0 else map_option Suc (findIndex P xs))"

section \<open>Derived views (lines 477-482)\<close>

text \<open>
  \<^verbatim>\<open>Array.prototype.sort\<close> with a comparator is a stable sort; \<open>sort_key\<close> is the stable
  insertion sort. The comparator of the completed view is
  \<^verbatim>\<open>(b.updatedAt || 0) - (a.updatedAt || 0)\<close>: descending, a missing stamp read as 0.
\<close>

definition updatedAtOr0 :: "Task \<Rightarrow> int" where
  "updatedAtOr0 t = (case updatedAt t of None \<Rightarrow> 0 | Some u \<Rightarrow> u)"

definition activeTasks :: "Task list \<Rightarrow> Task list" where
  "activeTasks ts = sort_key sortOrder (filter (\<lambda>t. \<not> isCompleted t) ts)"

definition completedTasks :: "Task list \<Rightarrow> Task list" where
  "completedTasks ts = sort_key (\<lambda>t. - updatedAtOr0 t) (filter isCompleted ts)"

section \<open>Handlers (lines 485-521 and 550-649)\<close>

text \<open>
  \<open>now\<close> is the reading of \<^verbatim>\<open>Date.now()\<close> and \<open>newId\<close> the result of \<^verbatim>\<open>id()\<close> in the
  call; both come from the environment.
\<close>

definition undo :: "int \<Rightarrow> State \<Rightarrow> State option" where
  "undo now s =
     (if undoStack s = [] then Some s
      else
        let lastAction = last (undoStack s);
            s1 = s\<lparr>undoStack := butlast (undoStack s)\<rparr>
        in map_option (\<lambda>ts. s1\<lparr>tasks := ts\<rparr>)
             (case lastAction of
                ADD_TASK task \<Rightarrow> transact [Delete (task_id task)] (tasks s)
              | DELETE_TASK task index \<Rightarrow>
                  transact [Update (task_id task)
                    ((patchOfTask task)\<lparr>p_updatedAt := Some now\<rparr>)] (tasks s)
              | TOGGLE_COMPLETE taskId wasCompleted \<Rightarrow>
                  transact [Update taskId
                    (noPatch\<lparr>p_isCompleted := Some wasCompleted, p_updatedAt := Some now\<rparr>)]
                    (tasks s)
              | UPDATE_TASK taskId oldTitle newTitle \<Rightarrow>
                  transact [Update taskId
                    (noPatch\<lparr>p_title := Some oldTitle, p_updatedAt := Some now\<rparr>)]
                    (tasks s)))"

definition addTask :: "string \<Rightarrow> int \<Rightarrow> State \<Rightarrow> State option" where
  "addTask newId now s =
     (if trim (newTaskTitle s) \<noteq> [] then
        let newTask = \<lparr>task_id = newId, title = newTaskTitle s, isCompleted = False,
              sortOrder = int (length (tasks s)), createdAt = Some now,
              updatedAt = Some now, userId = None\<rparr>
        in map_option
             (\<lambda>ts. s\<lparr>tasks := ts, undoStack := undoStack s @ [ADD_TASK newTask],
                newTaskTitle := []\<rparr>)
             (transact [Update newId (patchOfTask newTask)] (tasks s))
      else Some s)"

definition toggleComplete :: "int \<Rightarrow> string \<Rightarrow> State \<Rightarrow> State option" where
  "toggleComplete now taskId s =
     (case find (\<lambda>t. task_id t = taskId) (tasks s) of
        None \<Rightarrow> Some s
      | Some task \<Rightarrow>
          map_option
            (\<lambda>ts. s\<lparr>tasks := ts,
               undoStack := undoStack s @ [TOGGLE_COMPLETE taskId (isCompleted task)]\<rparr>)
            (transact [Update taskId
               (noPatch\<lparr>p_isCompleted := Some (\<not> isCompleted task),
                  p_updatedAt := Some now\<rparr>)] (tasks s)))"

definition deleteTask :: "string \<Rightarrow> State \<Rightarrow> State option" where
  "deleteTask taskId s =
     (case findIndex (\<lambda>t. task_id t = taskId) (tasks s) of
        None \<Rightarrow> Some s
      | Some taskIndex \<Rightarrow>
          map_option
            (\<lambda>ts. s\<lparr>tasks := ts,
               undoStack := undoStack s @ [DELETE_TASK (tasks s ! taskIndex) taskIndex]\<rparr>)
            (transact [Delete taskId] (tasks s)))"

definition updateTaskTitle :: "int \<Rightarrow> string \<Rightarrow> string \<Rightarrow> State \<Rightarrow> State option" where
  "updateTaskTitle now taskId newTitle s =
     (case find (\<lambda>t. task_id t = taskId) (tasks s) of
        None \<Rightarrow> Some s
      | Some task \<Rightarrow>
          map_option (\<lambda>s'. s'\<lparr>editingId := None\<rparr>)
            (if trim newTitle \<noteq> [] \<and> newTitle \<noteq> title task then
               map_option
                 (\<lambda>ts. s\<lparr>tasks := ts,
                    undoStack := undoStack s @ [UPDATE_TASK taskId (title task) newTitle]\<rparr>)
                 (transact [Update taskId
                    (noPatch\<lparr>p_title := Some newTitle, p_updatedAt := Some now\<rparr>)] (tasks s))
             else if trim newTitle = [] then deleteTask taskId s
             else Some s))"

text \<open>
  \<^verbatim>\<open>handleReorder\<close> reads \<^verbatim>\<open>Date.now()\<close> once for each element of \<^verbatim>\<open>newOrder\<close>:
  \<open>now i\<close> is the reading at position \<open>i\<close>.
\<close>

definition handleReorder :: "(nat \<Rightarrow> int) \<Rightarrow> Task list \<Rightarrow> State \<Rightarrow> State option" where
  "handleReorder now newOrder s =
     map_option (\<lambda>ts. s\<lparr>tasks := ts\<rparr>)
       (transact
          (map (\<lambda>(index, task). Update (task_id task)
                  (noPatch\<lparr>p_sortOrder := Some (int index), p_updatedAt := Some (now index)\<rparr>))
               (enumerate 0 newOrder))
          (tasks s))"


section \<open>The in-memory revision (src/app/page.tsx, lines 6-158)\<close>

text \<open>
  The revision before the store was introduced keeps \<^verbatim>\<open>tasks\<close> in the component state.
  Its tasks have no stamps (the optional fields are \<open>None\<close>), its views are plain
  filters, and its handlers write the new list with \<^verbatim>\<open>setTasks\<close>. The id of a new task
  is \<^verbatim>\<open>Date.now().toString()\<close>: \<open>newId\<close> below is that string, the same for two calls
  in the same millisecond. \<^verbatim>\<open>splice(index, 0, task)\<close> inserts before position
  \<open>index\<close>, at the end when \<open>index\<close> is beyond it.
\<close>

definition activeTasks_mem :: "Task list \<Rightarrow> Task list" where
  "activeTasks_mem ts = filter (\<lambda>t. \<not> isCompleted t) ts"

definition completedTasks_mem :: "Task list \<Rightarrow> Task list" where
  "completedTasks_mem ts = filter isCompleted ts"

definition undo_mem :: "State \<Rightarrow> State" where
  "undo_mem s =
     (if undoStack s = [] then s
      else
        let lastAction = last (undoStack s);
            s1 = s\<lparr>undoStack := butlast (undoStack s)\<rparr>
        in case lastAction of
             ADD_TASK task \<Rightarrow>
               s1\<lparr>tasks := filter (\<lambda>t. task_id t \<noteq> task_id task) (tasks s)\<rparr>
           | DELETE_TASK task index \<Rightarrow>
               s1\<lparr>tasks := take index (tasks s) @ task # drop index (tasks s)\<rparr>
           | TOGGLE_COMPLETE taskId wasCompleted \<Rightarrow>
               s1\<lparr>tasks := map (\<lambda>t. if task_id t = taskId
                                  then t\<lparr>isCompleted := wasCompleted\<rparr> else t) (tasks s)\<rparr>
           | UPDATE_TASK taskId oldTitle newTitle \<Rightarrow>
               s1\<lparr>tasks := map (\<lambda>t. if task_id t = taskId
                                  then t\<lparr>title := oldTitle\<rparr> else t) (tasks s)\<rparr>)"

definition addTask_mem :: "string \<Rightarrow> State \<Rightarrow> State" where
  "addTask_mem newId s =
     (if trim (newTaskTitle s) \<noteq> [] then
        let newTask = \<lparr>task_id = newId, title = newTaskTitle s, isCompleted = False,
              sortOrder = int (length (tasks s)), createdAt = None, updatedAt = None,
              userId = None\<rparr>
        in s\<lparr>tasks := tasks s @ [newTask],
             undoStack := undoStack s @ [ADD_TASK newTask], newTaskTitle := []\<rparr>
      else s)"

definition toggleComplete_mem :: "string \<Rightarrow> State \<Rightarrow> State" where
  "toggleComplete_mem taskId s =
     (case find (\<lambda>t. task_id t = taskId) (tasks s) of
        None \<Rightarrow> s
      | Some task \<Rightarrow>
          s\<lparr>undoStack := undoStack s @ [TOGGLE_COMPLETE taskId (isCompleted task)],
            tasks := map (\<lambda>t. if task_id t = taskId
                             then t\<lparr>isCompleted := \<not> isCompleted t\<rparr> else t) (tasks s)\<rparr>)"

definition deleteTask_mem :: "string \<Rightarrow> State \<Rightarrow> State" where
  "deleteTask_mem taskId s =
     (case findIndex (\<lambda>t. task_id t = taskId) (tasks s) of
        None \<Rightarrow> s
      | Some taskIndex \<Rightarrow>
          s\<lparr>undoStack := undoStack s @ [DELETE_TASK (tasks s ! taskIndex) taskIndex],
            tasks := filter (\<lambda>t. task_id t \<noteq> taskId) (tasks s)\<rparr>)"

definition updateTaskTitle_mem :: "string \<Rightarrow> string \<Rightarrow> State \<Rightarrow> State" where
  "updateTaskTitle_mem taskId newTitle s =
     (case find (\<lambda>t. task_id t = taskId) (tasks s) of
        None \<Rightarrow> s
      | Some task \<Rightarrow>
          (if trim newTitle \<noteq> [] \<and> newTitle \<noteq> title task then
             s\<lparr>undoStack := undoStack s @ [UPDATE_TASK taskId (title task) newTitle],
               tasks := map (\<lambda>t. if task_id t = taskId
                                then t\<lparr>title := newTitle\<rparr> else t) (tasks s)\<rparr>
           else if trim newTitle = [] then deleteTask_mem taskId s
           else s)\<lparr>editingId := None\<rparr>)"

definition handleReorder_mem :: "Task list \<Rightarrow> State \<Rightarrow> State" where
  "handleReorder_mem newOrder s =
     s\<lparr>tasks := map (\<lambda>(index, task). task\<lparr>sortOrder := int index\<rparr>) (enumerate 0 newOrder)
                 @ completedTasks_mem (tasks s)\<rparr>"

section \<open>Sequences of operations\<close>

text \<open>
  The four logged operations as commands, each with what the environment supplies to the
  call: \<open>Add newId now text\<close> types \<open>text\<close> into the new-task field and presses Enter.
\<close>

datatype Cmd =
  Add string int string
  | ToggleComplete int string
  | DeleteCmd string
  | Rename int string string

fun exec :: "Cmd \<Rightarrow> State \<Rightarrow> State option" where
  "exec (Add newId now text) s = addTask newId now (s\<lparr>newTaskTitle := text\<rparr>)"
| "exec (ToggleComplete now k) s = toggleComplete now k s"
| "exec (DeleteCmd k) s = deleteTask k s"
| "exec (Rename now k text) s = updateTaskTitle now k text s"

fun run :: "Cmd list \<Rightarrow> State \<Rightarrow> State option" where
  "run [] s = Some s"
| "run (c # cs) s = (case exec c s of None \<Rightarrow> None | Some s' \<Rightarrow> run cs s')"

text \<open>The sort keys of the active view are \<open>0, 1, ..., n - 1\<close> in the order of the view.\<close>

definition contiguous :: "Task list \<Rightarrow> bool" where
  "contiguous ts = (map sortOrder (activeTasks ts) = map int [0..<length (activeTasks ts)])"

text \<open>
  What the transaction of \<^verbatim>\<open>handleReorder\<close> amounts to for one task, when the ids of
  \<open>newOrder\<close> are distinct: a task whose id stands at position \<open>i\<close> of \<open>newOrder\<close>
  (counted from \<open>n\<close>) gets that position as sort key and the clock reading taken there;
  a task whose id is not in \<open>newOrder\<close> is left alone.
\<close>

definition stampOrder :: "(nat \<Rightarrow> int) \<Rightarrow> nat \<Rightarrow> Task list \<Rightarrow> Task \<Rightarrow> Task" where
  "stampOrder now n newOrder t =
     (case findIndex (\<lambda>a. task_id a = task_id t) newOrder of
        None \<Rightarrow> t
      | Some i \<Rightarrow> t\<lparr>sortOrder := int (n + i), updatedAt := Some (now (n + i))\<rparr>)"

text \<open>
  No blank text is kept: every title of the collection is non-blank after trimming, and so
  is every title an entry of the undo stack would write back.
\<close>

fun actionTitleOk :: "Action \<Rightarrow> bool" where
  "actionTitleOk (ADD_TASK task) = (trim (title task) \<noteq> [])"
| "actionTitleOk (DELETE_TASK task index) = (trim (title task) \<noteq> [])"
| "actionTitleOk (TOGGLE_COMPLETE taskId wasCompleted) = True"
| "actionTitleOk (UPDATE_TASK taskId oldTitle newTitle) = (trim oldTitle \<noteq> [])"

definition titlesOk :: "State \<Rightarrow> bool" where
  "titlesOk s = (list_all (\<lambda>t. trim (title t) \<noteq> []) (tasks s)
                 \<and> list_all actionTitleOk (undoStack s))"

text \<open>The task with id \<open>k\<close> carries the stamp \<open>u\<close>; any other task is as it was.\<close>

definition restamped :: "string \<Rightarrow> int \<Rightarrow> Task \<Rightarrow> Task" where
  "restamped k u t = (if task_id t = k then t\<lparr>updatedAt := Some u\<rparr> else t)"

text \<open>The tasks the snapshot lists after the first task with id \<open>k\<close>.\<close>

definition laterTasks :: "string \<Rightarrow> Task list \<Rightarrow> Task list" where
  "laterTasks k ts = tl (dropWhile (\<lambda>t. task_id t \<noteq> k) ts)"

text \<open>
  The entry on top of the undo stack writes to a task the collection holds: a
  \<open>TOGGLE_COMPLETE\<close> or \<open>UPDATE_TASK\<close> entry names a task by its id; an \<open>ADD_TASK\<close> or
  \<open>DELETE_TASK\<close> entry carries the whole task and needs none.
\<close>

definition undoKnown :: "State \<Rightarrow> bool" where
  "undoKnown s =
     (case last (undoStack s) of
        TOGGLE_COMPLETE taskId wasCompleted \<Rightarrow> taskId \<in> set (map task_id (tasks s))
      | UPDATE_TASK taskId oldTitle newTitle \<Rightarrow> taskId \<in> set (map task_id (tasks s))
      | _ \<Rightarrow> True)"

text \<open>
  The whole undo stack can be replayed on the ids the collection holds. The list is the
  stack with its top first: undoing an \<open>ADD_TASK\<close> entry takes its id away, undoing a
  \<open>DELETE_TASK\<close> entry puts its id back, and a \<open>TOGGLE_COMPLETE\<close> or \<open>UPDATE_TASK\<close>
  entry finds its id among the ids held when its turn comes.
\<close>

fun undoable :: "string set \<Rightarrow> Action list \<Rightarrow> bool" where
  "undoable ids [] = True"
| "undoable ids (ADD_TASK task # rest) = undoable (ids - {task_id task}) rest"
| "undoable ids (DELETE_TASK task index # rest) = undoable (insert (task_id task) ids) rest"
| "undoable ids (TOGGLE_COMPLETE taskId wasCompleted # rest) =
     (taskId \<in> ids \<and> undoable ids rest)"
| "undoable ids (UPDATE_TASK taskId oldTitle newTitle # rest) =
     (taskId \<in> ids \<and> undoable ids rest)"

definition undoReady :: "State \<Rightarrow> bool" where
  "undoReady s = undoable (set (map task_id (tasks s))) (rev (undoStack s))"

text \<open>Concrete tasks and states for the examples: a task created and last written at \<open>u\<close>.\<close>

definition mkTask :: "string \<Rightarrow> string \<Rightarrow> bool \<Rightarrow> int \<Rightarrow> int \<Rightarrow> Task" where
  "mkTask k x c n u = \<lparr>task_id = k, title = x, isCompleted = c, sortOrder = n,
     createdAt = Some u, updatedAt = Some u, userId = None\<rparr>"

definition mkState :: "Task list \<Rightarrow> Action list \<Rightarrow> State" where
  "mkState ts us = \<lparr>tasks = ts, undoStack = us, editingId = None, newTaskTitle = []\<rparr>"

section \<open>Facts about the library functions and the store\<close>

lemma transact_single: "transact [op] ts = applyOp op ts"
  by (simp split: option.splits)

lemma applyOp_Delete: "applyOp (Delete k) ts = Some (filter (\<lambda>t. task_id t \<noteq> k) ts)"
  by (simp add: applyOp_def)

lemma applyOp_Update_known:
  "k \<in> task_id ` set ts \<Longrightarrow>
   applyOp (Update k p) ts = Some (map (\<lambda>t. if task_id t = k then applyPatch p t else t) ts)"
  by (simp add: applyOp_def)

lemma applyOp_Update_fresh:
  "k \<notin> task_id ` set ts \<Longrightarrow>
   applyOp (Update k (patchOfTask t)) ts = Some (ts @ [t\<lparr>task_id := k\<rparr>])"
  by (simp add: applyOp_def patchOfTask_def)

lemma applyOp_Update_fresh_stamped:
  "k \<notin> task_id ` set ts \<Longrightarrow>
   applyOp (Update k ((patchOfTask t)\<lparr>p_updatedAt := Some n\<rparr>)) ts
     = Some (ts @ [t\<lparr>task_id := k, updatedAt := Some n\<rparr>])"
  by (simp add: applyOp_def patchOfTask_def)

lemma find_task_id:
  "find (\<lambda>t. task_id t = k) ts = Some task \<Longrightarrow> task \<in> set ts \<and> task_id task = k"
  by (auto simp: find_Some_iff)

lemma find_known: "find (\<lambda>t. task_id t = k) ts = Some task \<Longrightarrow> k \<in> task_id ` set ts"
  using find_task_id by fastforce

lemma find_None_unknown: "find (\<lambda>t. task_id t = k) ts = None \<longleftrightarrow> k \<notin> task_id ` set ts"
  by (auto simp: find_None_iff)

lemma findIndex_None: "find P xs = None \<Longrightarrow> findIndex P xs = None"
  by (induction xs) (auto split: if_splits)

lemma findIndex_Some:
  "findIndex P xs = Some i \<Longrightarrow> i < length xs \<and> find P xs = Some (xs ! i)"
  by (induction xs arbitrary: i) (auto split: if_splits)

lemma find_findIndex:
  "find P xs = Some x \<Longrightarrow> \<exists>i. findIndex P xs = Some i \<and> i < length xs \<and> xs ! i = x"
  by (induction xs) (auto split: if_splits)

lemma applyPatch_toggle:
  "applyPatch (noPatch\<lparr>p_isCompleted := Some b, p_updatedAt := Some n\<rparr>) t
     = t\<lparr>isCompleted := b, updatedAt := Some n\<rparr>"
  by (simp add: applyPatch_def noPatch_def)

lemma applyPatch_title:
  "applyPatch (noPatch\<lparr>p_title := Some x, p_updatedAt := Some n\<rparr>) t
     = t\<lparr>title := x, updatedAt := Some n\<rparr>"
  by (simp add: applyPatch_def noPatch_def)

lemma applyPatch_sortOrder:
  "applyPatch (noPatch\<lparr>p_sortOrder := Some i, p_updatedAt := Some n\<rparr>) t
     = t\<lparr>sortOrder := i, updatedAt := Some n\<rparr>"
  by (simp add: applyPatch_def noPatch_def)

lemma toggleComplete_unknown:
  "find (\<lambda>t. task_id t = k) (tasks s) = None \<Longrightarrow> toggleComplete now k s = Some s"
  by (simp add: toggleComplete_def)

lemma toggleComplete_known:
  "find (\<lambda>t. task_id t = k) (tasks s) = Some task \<Longrightarrow>
   toggleComplete now k s =
     Some (s\<lparr>tasks := map (\<lambda>t. if task_id t = k
                 then t\<lparr>isCompleted := \<not> isCompleted task, updatedAt := Some now\<rparr> else t) (tasks s),
             undoStack := undoStack s @ [TOGGLE_COMPLETE k (isCompleted task)]\<rparr>)"
  by (simp add: toggleComplete_def transact_single applyOp_Update_known find_known
      applyPatch_toggle)

lemma deleteTask_unknown:
  "find (\<lambda>t. task_id t = k) (tasks s) = None \<Longrightarrow> deleteTask k s = Some s"
  by (simp add: deleteTask_def findIndex_None)

lemma deleteTask_known:
  "findIndex (\<lambda>t. task_id t = k) (tasks s) = Some i \<Longrightarrow>
   deleteTask k s =
     Some (s\<lparr>tasks := filter (\<lambda>t. task_id t \<noteq> k) (tasks s),
             undoStack := undoStack s @ [DELETE_TASK (tasks s ! i) i]\<rparr>)"
  by (simp add: deleteTask_def transact_single applyOp_Delete)

lemma updateTaskTitle_unknown:
  "find (\<lambda>t. task_id t = k) (tasks s) = None \<Longrightarrow> updateTaskTitle now k x s = Some s"
  by (simp add: updateTaskTitle_def)

lemma updateTaskTitle_blank:
  "find (\<lambda>t. task_id t = k) (tasks s) = Some task \<Longrightarrow> trim x = [] \<Longrightarrow>
   updateTaskTitle now k x s = map_option (\<lambda>s'. s'\<lparr>editingId := None\<rparr>) (deleteTask k s)"
  by (simp add: updateTaskTitle_def)

lemma updateTaskTitle_changed:
  "find (\<lambda>t. task_id t = k) (tasks s) = Some task \<Longrightarrow> trim x \<noteq> [] \<Longrightarrow> x \<noteq> title task \<Longrightarrow>
   updateTaskTitle now k x s =
     Some (s\<lparr>tasks := map (\<lambda>t. if task_id t = k
                 then t\<lparr>title := x, updatedAt := Some now\<rparr> else t) (tasks s),
             undoStack := undoStack s @ [UPDATE_TASK k (title task) x],
             editingId := None\<rparr>)"
  by (simp add: updateTaskTitle_def transact_single applyOp_Update_known find_known
      applyPatch_title)

lemma updateTaskTitle_same:
  "find (\<lambda>t. task_id t = k) (tasks s) = Some task \<Longrightarrow> trim x \<noteq> [] \<Longrightarrow> x = title task \<Longrightarrow>
   updateTaskTitle now k x s = Some (s\<lparr>editingId := None\<rparr>)"
  by (simp add: updateTaskTitle_def)

lemma addTask_blank: "trim (newTaskTitle s) = [] \<Longrightarrow> addTask newId now s = Some s"
  by (simp add: addTask_def)

lemma addTask_fresh:
  "trim (newTaskTitle s) \<noteq> [] \<Longrightarrow> newId \<notin> task_id ` set (tasks s) \<Longrightarrow>
   addTask newId now s =
     (let newTask = \<lparr>task_id = newId, title = newTaskTitle s, isCompleted = False,
            sortOrder = int (length (tasks s)), createdAt = Some now,
            updatedAt = Some now, userId = None\<rparr>
      in Some (s\<lparr>tasks := tasks s @ [newTask],
                 undoStack := undoStack s @ [ADD_TASK newTask], newTaskTitle := []\<rparr>))"
  by (simp add: addTask_def transact_single applyOp_Update_fresh Let_def)

lemma undo_empty: "undoStack s = [] \<Longrightarrow> undo now s = Some s"
  by (simp add: undo_def)

lemma undo_ADD:
  "undoStack s = us @ [ADD_TASK task] \<Longrightarrow>
   undo now s = Some (s\<lparr>undoStack := us, tasks := filter (\<lambda>t. task_id t \<noteq> task_id task) (tasks s)\<rparr>)"
  by (simp add: undo_def transact_single applyOp_Delete)

lemma undo_TOGGLE:
  "undoStack s = us @ [TOGGLE_COMPLETE k was] \<Longrightarrow> k \<in> task_id ` set (tasks s) \<Longrightarrow>
   undo now s = Some (s\<lparr>undoStack := us,
      tasks := map (\<lambda>t. if task_id t = k then t\<lparr>isCompleted := was, updatedAt := Some now\<rparr> else t)
                 (tasks s)\<rparr>)"
  by (simp add: undo_def transact_single applyOp_Update_known applyPatch_toggle)

lemma undo_UPDATE:
  "undoStack s = us @ [UPDATE_TASK k old new] \<Longrightarrow> k \<in> task_id ` set (tasks s) \<Longrightarrow>
   undo now s = Some (s\<lparr>undoStack := us,
      tasks := map (\<lambda>t. if task_id t = k then t\<lparr>title := old, updatedAt := Some now\<rparr> else t)
                 (tasks s)\<rparr>)"
  by (simp add: undo_def transact_single applyOp_Update_known applyPatch_title)

lemma undo_DELETE_absent:
  "undoStack s = us @ [DELETE_TASK task i] \<Longrightarrow> task_id task \<notin> task_id ` set (tasks s) \<Longrightarrow>
   undo now s = Some (s\<lparr>undoStack := us, tasks := tasks s @ [task\<lparr>updatedAt := Some now\<rparr>]\<rparr>)"
  by (simp add: undo_def transact_single applyOp_Update_fresh_stamped)

section \<open>Task ids are unique\<close>

lemma task_id_applyPatch: "task_id (applyPatch p t) = task_id t"
  by (simp add: applyPatch_def)

lemma applyOp_ids:
  "applyOp op ts = Some ts' \<Longrightarrow> distinct (map task_id ts) \<Longrightarrow> distinct (map task_id ts')"
proof (cases op)
  case (Update k p)
  assume a: "applyOp op ts = Some ts'" and d: "distinct (map task_id ts)"
  show ?thesis
  proof (cases "k \<in> task_id ` set ts")
    case True
    with a Update have "ts' = map (\<lambda>t. if task_id t = k then applyPatch p t else t) ts"
      by (simp add: applyOp_def)
    then have "map task_id ts' = map task_id ts"
      by (simp add: task_id_applyPatch o_def if_distrib cong: if_cong)
    with d show ?thesis by simp
  next
    case False
    with a Update obtain t where "ts' = ts @ [t]" "task_id t = k"
      by (auto simp: applyOp_def split: option.splits)
    with d False show ?thesis by auto
  qed
next
  case (Delete k)
  assume a: "applyOp op ts = Some ts'" and d: "distinct (map task_id ts)"
  from a Delete have "ts' = filter (\<lambda>t. task_id t \<noteq> k) ts"
    by (simp add: applyOp_def)
  with d show ?thesis by (simp add: distinct_map_filter)
qed

lemma transact_ids:
  "transact ops ts = Some ts' \<Longrightarrow> distinct (map task_id ts) \<Longrightarrow> distinct (map task_id ts')"
  by (induction ops arbitrary: ts) (auto split: option.splits dest: applyOp_ids)

lemma applyOp_Update_whole: "\<exists>ts'. applyOp (Update k (patchOfTask t)) ts = Some ts'"
  by (simp add: applyOp_def patchOfTask_def)

lemma addTask_total: "\<exists>s'. addTask newId now s = Some s'"
proof (cases "trim (newTaskTitle s) = []")
  case True
  then show ?thesis by (simp add: addTask_blank)
next
  case False
  obtain ts' where
    "applyOp (Update newId (patchOfTask \<lparr>task_id = newId, title = newTaskTitle s,
       isCompleted = False, sortOrder = int (length (tasks s)), createdAt = Some now,
       updatedAt = Some now, userId = None\<rparr>)) (tasks s) = Some ts'"
    using applyOp_Update_whole by blast
  with False show ?thesis by (simp add: addTask_def Let_def)
qed

lemma toggleComplete_total: "\<exists>s'. toggleComplete now k s = Some s'"
  by (cases "find (\<lambda>t. task_id t = k) (tasks s)")
     (simp_all add: toggleComplete_unknown toggleComplete_known)

lemma deleteTask_total: "\<exists>s'. deleteTask k s = Some s'"
  by (simp add: deleteTask_def applyOp_Delete split: option.splits)

lemma updateTaskTitle_total: "\<exists>s'. updateTaskTitle now k x s = Some s'"
proof (cases "find (\<lambda>t. task_id t = k) (tasks s)")
  case None
  then show ?thesis by (simp add: updateTaskTitle_unknown)
next
  case (Some task)
  then show ?thesis
    using deleteTask_total[of k s]
    by (cases "trim x = []"; cases "x = title task")
       (auto simp: updateTaskTitle_blank updateTaskTitle_changed updateTaskTitle_same)
qed

lemma addTask_ids:
  "addTask newId now s = Some s' \<Longrightarrow> distinct (map task_id (tasks s)) \<Longrightarrow>
   distinct (map task_id (tasks s'))"
  by (auto simp: addTask_def Let_def simp del: transact.simps split: if_splits dest: transact_ids)

lemma toggleComplete_ids:
  "toggleComplete now k s = Some s' \<Longrightarrow> distinct (map task_id (tasks s)) \<Longrightarrow>
   distinct (map task_id (tasks s'))"
  by (auto simp: toggleComplete_def simp del: transact.simps split: option.splits dest: transact_ids)

lemma deleteTask_ids:
  "deleteTask k s = Some s' \<Longrightarrow> distinct (map task_id (tasks s)) \<Longrightarrow>
   distinct (map task_id (tasks s'))"
  by (auto simp: deleteTask_def simp del: transact.simps split: option.splits dest: transact_ids)

lemma updateTaskTitle_ids:
  "updateTaskTitle now k x s = Some s' \<Longrightarrow> distinct (map task_id (tasks s)) \<Longrightarrow>
   distinct (map task_id (tasks s'))"
  by (auto simp: updateTaskTitle_def simp del: transact.simps split: option.splits if_splits
      dest: transact_ids deleteTask_ids)

lemma undo_ids:
  "undo now s = Some s' \<Longrightarrow> distinct (map task_id (tasks s)) \<Longrightarrow>
   distinct (map task_id (tasks s'))"
  by (auto simp: undo_def Let_def simp del: transact.simps split: if_splits Action.splits dest: transact_ids)

lemma handleReorder_ids:
  "handleReorder now newOrder s = Some s' \<Longrightarrow> distinct (map task_id (tasks s)) \<Longrightarrow>
   distinct (map task_id (tasks s'))"
  by (auto simp: handleReorder_def simp del: transact.simps dest: transact_ids)

lemma exec_total: "\<exists>s'. exec c s = Some s'"
  by (cases c)
     (simp_all add: addTask_total toggleComplete_total deleteTask_total updateTaskTitle_total)

lemma exec_ids:
  "exec c s = Some s' \<Longrightarrow> distinct (map task_id (tasks s)) \<Longrightarrow>
   distinct (map task_id (tasks s'))"
  by (cases c) (auto dest: addTask_ids toggleComplete_ids deleteTask_ids updateTaskTitle_ids)

lemma run_ids:
  "distinct (map task_id (tasks s)) \<Longrightarrow>
   \<exists>s'. run cs s = Some s' \<and> distinct (map task_id (tasks s'))"
proof (induction cs arbitrary: s)
  case Nil
  then show ?case by simp
next
  case (Cons c cs)
  obtain s1 where s1: "exec c s = Some s1"
    using exec_total by blast
  with Cons.prems have "distinct (map task_id (tasks s1))"
    by (rule exec_ids[rotated])
  from Cons.IH[OF this] s1 show ?case by simp
qed

text \<open>
  C2: whatever sequence of add, delete, toggleComplete and rename commands runs from the
  empty collection, with whatever ids and clock readings, the run returns, and the ids of
  the resulting collection (active and completed tasks together) are pairwise distinct.
\<close>

theorem ids_unique: "\<exists>s. run cs initState = Some s \<and> distinct (map task_id (tasks s))"
  by (rule run_ids) (simp add: initState_def)

section \<open>The derived views\<close>

text \<open>
  C8: the two views split the collection. The active view holds exactly the tasks that are
  not completed (with their multiplicity), in ascending order of the field \<open>sortOrder\<close>;
  the completed view holds exactly the completed ones, in descending order of the field
  \<open>updatedAt\<close> (a missing stamp read as 0, as the comparator does); together they hold
  every task of the collection once, and no task is in both. On six tasks, two of them
  active with sort keys 2 and 1 and four completed with the stamps 5, 9, none and 7, the
  active view lists the keys 1, 2 and the completed view the stamps 9, 7, 5, none.
\<close>

theorem views_bipartition:
  "mset (activeTasks ts) = filter_mset (\<lambda>t. \<not> isCompleted t) (mset ts)
   \<and> sorted (map sortOrder (activeTasks ts))
   \<and> mset (completedTasks ts) = filter_mset isCompleted (mset ts)
   \<and> sorted_wrt (\<lambda>a b. (case updatedAt b of None \<Rightarrow> 0 | Some u \<Rightarrow> u)
                        \<le> (case updatedAt a of None \<Rightarrow> 0 | Some u \<Rightarrow> u))
        (completedTasks ts)
   \<and> mset (activeTasks ts) + mset (completedTasks ts) = mset ts
   \<and> set (activeTasks ts) \<inter> set (completedTasks ts) = {}
   \<and> map task_id (activeTasks [mkTask ''a'' ''A'' False 2 1, mkTask ''b'' ''B'' True 0 5,
          mkTask ''c'' ''C'' False 1 3, mkTask ''d'' ''D'' True 3 9,
          (mkTask ''e'' ''E'' True 4 0)\<lparr>updatedAt := None\<rparr>, mkTask ''f'' ''F'' True 5 7])
       = [''c'', ''a'']
   \<and> map updatedAt (completedTasks [mkTask ''a'' ''A'' False 2 1, mkTask ''b'' ''B'' True 0 5,
          mkTask ''c'' ''C'' False 1 3, mkTask ''d'' ''D'' True 3 9,
          (mkTask ''e'' ''E'' True 4 0)\<lparr>updatedAt := None\<rparr>, mkTask ''f'' ''F'' True 5 7])
       = [Some 9, Some 7, Some 5, None]"
proof -
  have "sorted (map (\<lambda>t. - updatedAtOr0 t) (completedTasks ts))"
    by (simp add: completedTasks_def)
  then have "sorted_wrt (\<lambda>a b. updatedAtOr0 b \<le> updatedAtOr0 a) (completedTasks ts)"
    by (simp add: sorted_wrt_map)
  then have desc: "sorted_wrt (\<lambda>a b. (case updatedAt b of None \<Rightarrow> 0 | Some u \<Rightarrow> u)
                        \<le> (case updatedAt a of None \<Rightarrow> 0 | Some u \<Rightarrow> u))
        (completedTasks ts)"
    by (simp add: updatedAtOr0_def)
  have disj: "set (activeTasks ts) \<inter> set (completedTasks ts) = {}"
    by (auto simp: activeTasks_def completedTasks_def)
  have ex1: "map task_id (activeTasks [mkTask ''a'' ''A'' False 2 1, mkTask ''b'' ''B'' True 0 5,
          mkTask ''c'' ''C'' False 1 3, mkTask ''d'' ''D'' True 3 9,
          (mkTask ''e'' ''E'' True 4 0)\<lparr>updatedAt := None\<rparr>, mkTask ''f'' ''F'' True 5 7])
       = [''c'', ''a'']"
    by (simp add: activeTasks_def mkTask_def)
  have ex2: "map updatedAt (completedTasks [mkTask ''a'' ''A'' False 2 1, mkTask ''b'' ''B'' True 0 5,
          mkTask ''c'' ''C'' False 1 3, mkTask ''d'' ''D'' True 3 9,
          (mkTask ''e'' ''E'' True 4 0)\<lparr>updatedAt := None\<rparr>, mkTask ''f'' ''F'' True 5 7])
       = [Some 9, Some 7, Some 5, None]"
    by (simp add: completedTasks_def mkTask_def updatedAtOr0_def)
  show ?thesis
    using desc disj ex1 ex2 by (simp add: activeTasks_def completedTasks_def)
qed

section \<open>Adding a task\<close>

lemma applyPatch_whole:
  "applyPatch (patchOfTask \<lparr>task_id = k, title = x, isCompleted = c, sortOrder = n,
      createdAt = Some a, updatedAt = Some b, userId = None\<rparr>) t
   = t\<lparr>title := x, isCompleted := c, sortOrder := n, createdAt := Some a, updatedAt := Some b\<rparr>"
  by (simp add: applyPatch_def patchOfTask_def)

lemma addTask_known:
  "trim (newTaskTitle s) \<noteq> [] \<Longrightarrow> newId \<in> task_id ` set (tasks s) \<Longrightarrow>
   addTask newId now s =
     Some (s\<lparr>tasks := map (\<lambda>t. if task_id t = newId
                 then t\<lparr>title := newTaskTitle s, isCompleted := False,
                        sortOrder := int (length (tasks s)), createdAt := Some now,
                        updatedAt := Some now\<rparr> else t) (tasks s),
             undoStack := undoStack s @ [ADD_TASK \<lparr>task_id = newId, title = newTaskTitle s,
                 isCompleted = False, sortOrder = int (length (tasks s)),
                 createdAt = Some now, updatedAt = Some now, userId = None\<rparr>],
             newTaskTitle := []\<rparr>)"
  by (simp add: addTask_def Let_def applyOp_Update_known applyPatch_whole)

text \<open>
  C9: when the trimmed text of the new-task field is not empty, \<open>addTask\<close> returns, the
  collection then holds a task with the new id, every task with that id carries the text
  of the field as it was typed, and so does the task of the \<open>ADD_TASK\<close> entry on top of
  the undo stack. The trimmed text is used for the test only.
\<close>

theorem addTask_title_verbatim:
  assumes "trim (newTaskTitle s) \<noteq> []"
  shows "\<exists>s' task. addTask newId now s = Some s'
           \<and> newId \<in> task_id ` set (tasks s')
           \<and> title ` {t \<in> set (tasks s'). task_id t = newId} = {newTaskTitle s}
           \<and> undoStack s' = undoStack s @ [ADD_TASK task]
           \<and> title task = newTaskTitle s"
proof (cases "newId \<in> task_id ` set (tasks s)")
  case True
  define f :: "Task \<Rightarrow> Task" where "f = (\<lambda>t. if task_id t = newId
     then t\<lparr>title := newTaskTitle s, isCompleted := False,
            sortOrder := int (length (tasks s)), createdAt := Some now,
            updatedAt := Some now\<rparr> else t)"
  have id_f: "task_id (f t) = task_id t" for t
    by (simp add: f_def)
  have title_f: "task_id t = newId \<Longrightarrow> title (f t) = newTaskTitle s" for t
    by (simp add: f_def)
  from True obtain x where x: "x \<in> set (tasks s)" "task_id x = newId"
    by auto
  have "title ` {t \<in> set (map f (tasks s)). task_id t = newId} = {newTaskTitle s}"
  proof (rule set_eqI, rule iffI)
    fix y
    assume "y \<in> title ` {t \<in> set (map f (tasks s)). task_id t = newId}"
    then obtain z where "z \<in> set (tasks s)" "task_id (f z) = newId" "y = title (f z)"
      by auto
    then show "y \<in> {newTaskTitle s}"
      using title_f[of z] by (simp add: id_f)
  next
    fix y
    assume "y \<in> {newTaskTitle s}"
    then have "y = title (f x)" "task_id (f x) = newId" "f x \<in> set (map f (tasks s))"
      using x title_f[of x] by (simp_all add: id_f)
    then show "y \<in> title ` {t \<in> set (map f (tasks s)). task_id t = newId}"
      by blast
  qed
  moreover have "task_id ` set (map f (tasks s)) = task_id ` set (tasks s)"
    by (simp add: image_image id_f)
  then have "newId \<in> task_id ` set (map f (tasks s))"
    using True by simp
  ultimately show ?thesis
    unfolding addTask_known[OF assms True] f_def[symmetric] by simp
next
  case False
  define newTask :: Task where "newTask = \<lparr>task_id = newId, title = newTaskTitle s,
     isCompleted = False, sortOrder = int (length (tasks s)), createdAt = Some now,
     updatedAt = Some now, userId = None\<rparr>"
  have nt: "task_id newTask = newId" "title newTask = newTaskTitle s"
    by (simp_all add: newTask_def)
  have "{t \<in> set (tasks s @ [newTask]). task_id t = newId} = {newTask}"
    using False nt(1) by (auto simp: image_iff)
  then show ?thesis
    unfolding addTask_fresh[OF assms False] Let_def newTask_def[symmetric]
    using nt by simp
qed

theorem addTask_title_verbatim_witness:
  "trim ''  buy milk '' = ''buy milk''
   \<and> map_option (map title \<circ> tasks)
        (addTask ''id1'' 7 (initState\<lparr>newTaskTitle := ''  buy milk ''\<rparr>))
      = Some [''  buy milk '']"
proof -
  have h: "trim (newTaskTitle (initState\<lparr>newTaskTitle := ''  buy milk ''\<rparr>)) \<noteq> []"
    by (simp add: trim_def isWhiteSpace_def)
  from addTask_title_verbatim[OF h, of "''id1''" 7]
  show ?thesis
    by (simp add: trim_def isWhiteSpace_def addTask_def initState_def applyOp_def
        patchOfTask_def Let_def)
qed

section \<open>Toggling completion\<close>

lemma filter_others_map:
  fixes f :: "Task \<Rightarrow> Task"
  assumes "\<And>t. task_id (f t) = task_id t" and "\<And>t. task_id t \<noteq> k \<Longrightarrow> f t = t"
  shows "filter (\<lambda>t. task_id t \<noteq> k) (map f ts) = filter (\<lambda>t. task_id t \<noteq> k) ts"
  by (induction ts) (simp_all add: assms)

text \<open>
  C10: for a known id, \<open>toggleComplete\<close> maps the collection position by position: a task
  with another id is left as it is, and a task with the id has \<open>isCompleted\<close> set to the
  negation of the found task's flag and \<open>updatedAt\<close> set to the clock reading, nothing
  else. So the ids, titles, creation stamps and sort keys of the collection are what they
  were. A task completed and completed again therefore comes back to the active view with
  the sort key it had: after add A, add B, complete A, reorder [B], un-complete A, the two
  active tasks both have sort key 0.
\<close>

theorem toggleComplete_frame:
  "(find (\<lambda>t. task_id t = k) (tasks s) = Some task \<longrightarrow>
      (\<exists>s'. toggleComplete now k s = Some s'
         \<and> tasks s' = map (\<lambda>t. if task_id t = k
               then t\<lparr>isCompleted := \<not> isCompleted task, updatedAt := Some now\<rparr> else t) (tasks s)
         \<and> map task_id (tasks s') = map task_id (tasks s)
         \<and> map title (tasks s') = map title (tasks s)
         \<and> map createdAt (tasks s') = map createdAt (tasks s)
         \<and> map sortOrder (tasks s') = map sortOrder (tasks s)
         \<and> filter (\<lambda>t. task_id t \<noteq> k) (tasks s') = filter (\<lambda>t. task_id t \<noteq> k) (tasks s)))
   \<and> map_option (map sortOrder \<circ> activeTasks \<circ> tasks)
        (Option.bind (run [Add ''a'' 1 ''A'', Add ''b'' 2 ''B'', ToggleComplete 3 ''a''] initState)
           (\<lambda>s1. Option.bind (handleReorder (\<lambda>i. 4) (filter (\<lambda>t. task_id t = ''b'') (tasks s1)) s1)
              (toggleComplete 5 ''a'')))
      = Some [0, 0]"
proof (intro conjI impI)
  assume f: "find (\<lambda>t. task_id t = k) (tasks s) = Some task"
  let ?g = "\<lambda>t. if task_id t = k
               then t\<lparr>isCompleted := \<not> isCompleted task, updatedAt := Some now\<rparr> else t"
  have "map task_id (map ?g (tasks s)) = map task_id (tasks s)"
       "map title (map ?g (tasks s)) = map title (tasks s)"
       "map createdAt (map ?g (tasks s)) = map createdAt (tasks s)"
       "map sortOrder (map ?g (tasks s)) = map sortOrder (tasks s)"
    by (simp_all add: o_def if_distrib cong: if_cong)
  moreover have "filter (\<lambda>t. task_id t \<noteq> k) (map ?g (tasks s))
      = filter (\<lambda>t. task_id t \<noteq> k) (tasks s)"
    by (rule filter_others_map) simp_all
  ultimately show "\<exists>s'. toggleComplete now k s = Some s'
         \<and> tasks s' = map ?g (tasks s)
         \<and> map task_id (tasks s') = map task_id (tasks s)
         \<and> map title (tasks s') = map title (tasks s)
         \<and> map createdAt (tasks s') = map createdAt (tasks s)
         \<and> map sortOrder (tasks s') = map sortOrder (tasks s)
         \<and> filter (\<lambda>t. task_id t \<noteq> k) (tasks s') = filter (\<lambda>t. task_id t \<noteq> k) (tasks s)"
    unfolding toggleComplete_known[OF f] by simp
next
  show "map_option (map sortOrder \<circ> activeTasks \<circ> tasks)
        (Option.bind (run [Add ''a'' 1 ''A'', Add ''b'' 2 ''B'', ToggleComplete 3 ''a''] initState)
           (\<lambda>s1. Option.bind (handleReorder (\<lambda>i. 4) (filter (\<lambda>t. task_id t = ''b'') (tasks s1)) s1)
              (toggleComplete 5 ''a'')))
      = Some [0, 0]"
    by (simp add: initState_def addTask_def toggleComplete_def handleReorder_def applyOp_def
        patchOfTask_def noPatch_def applyPatch_def trim_def isWhiteSpace_def Let_def
        activeTasks_def enumerate_eq_zip)
qed


theorem toggleComplete_frame_witness:
  "find (\<lambda>t. task_id t = ''a'')
      (tasks (mkState [mkTask ''a'' ''A'' False 0 1, mkTask ''b'' ''B'' False 1 2] []))
     = Some (mkTask ''a'' ''A'' False 0 1)
   \<and> map_option tasks (toggleComplete 9 ''a''
        (mkState [mkTask ''a'' ''A'' False 0 1, mkTask ''b'' ''B'' False 1 2] []))
     = Some [(mkTask ''a'' ''A'' True 0 1)\<lparr>updatedAt := Some 9\<rparr>, mkTask ''b'' ''B'' False 1 2]"
proof -
  have h: "find (\<lambda>t. task_id t = ''a'')
      (tasks (mkState [mkTask ''a'' ''A'' False 0 1, mkTask ''b'' ''B'' False 1 2] []))
     = Some (mkTask ''a'' ''A'' False 0 1)"
    by (simp add: mkState_def mkTask_def)
  from toggleComplete_frame[of "''a''"
      "mkState [mkTask ''a'' ''A'' False 0 1, mkTask ''b'' ''B'' False 1 2] []"
      "mkTask ''a'' ''A'' False 0 1" 9, THEN conjunct1, THEN mp, OF h]
  obtain s' where "toggleComplete 9 ''a''
        (mkState [mkTask ''a'' ''A'' False 0 1, mkTask ''b'' ''B'' False 1 2] []) = Some s'"
    and "tasks s' = map (\<lambda>t. if task_id t = ''a''
               then t\<lparr>isCompleted := \<not> isCompleted (mkTask ''a'' ''A'' False 0 1),
                      updatedAt := Some 9\<rparr> else t)
            (tasks (mkState [mkTask ''a'' ''A'' False 0 1, mkTask ''b'' ''B'' False 1 2] []))"
    by blast
  then show ?thesis
    using h by (simp add: mkState_def mkTask_def)
qed

section \<open>What \<open>addTask\<close> creates\<close>

lemma length_views: "length (activeTasks ts) + length (completedTasks ts) = length ts"
proof -
  have "size (mset (activeTasks ts) + mset (completedTasks ts)) = size (mset ts)"
    by (simp add: activeTasks_def completedTasks_def)
  then show ?thesis by simp
qed

text \<open>
  C3, as the code has it: with a non-blank text in the field and an id the collection does
  not hold yet, \<open>addTask\<close> appends one task to the collection and pushes the \<open>ADD_TASK\<close>
  entry of that task; the task has the new id, the text, \<open>isCompleted = False\<close>, both
  stamps equal to the clock reading, and as \<open>sortOrder\<close> the length of the whole
  collection, that is the number of active tasks plus the number of completed tasks.
\<close>

theorem addTask_creates:
  assumes "trim (newTaskTitle s) \<noteq> []" and "newId \<notin> task_id ` set (tasks s)"
  shows "\<exists>newTask.
           addTask newId now s = Some (s\<lparr>tasks := tasks s @ [newTask],
             undoStack := undoStack s @ [ADD_TASK newTask], newTaskTitle := []\<rparr>)
           \<and> task_id newTask = newId \<and> title newTask = newTaskTitle s
           \<and> isCompleted newTask = False
           \<and> sortOrder newTask = int (length (tasks s))
           \<and> sortOrder newTask
               = int (length (activeTasks (tasks s))) + int (length (completedTasks (tasks s)))
           \<and> createdAt newTask = Some now \<and> updatedAt newTask = Some now
           \<and> userId newTask = None"
proof -
  have "int (length (tasks s))
      = int (length (activeTasks (tasks s))) + int (length (completedTasks (tasks s)))"
    using length_views[of "tasks s"] by linarith
  then show ?thesis
    unfolding addTask_fresh[OF assms] Let_def
    by (intro exI[of _ "\<lparr>task_id = newId, title = newTaskTitle s, isCompleted = False,
          sortOrder = int (length (tasks s)), createdAt = Some now, updatedAt = Some now,
          userId = None\<rparr>"]) simp
qed

theorem addTask_creates_witness:
  "addTask ''b'' 3 ((mkState [mkTask ''a'' ''A'' True 0 2] [])\<lparr>newTaskTitle := ''B''\<rparr>)
     = Some (mkState [mkTask ''a'' ''A'' True 0 2, mkTask ''b'' ''B'' False 1 3]
               [ADD_TASK (mkTask ''b'' ''B'' False 1 3)])"
proof -
  have h1: "trim (newTaskTitle ((mkState [mkTask ''a'' ''A'' True 0 2] [])\<lparr>newTaskTitle := ''B''\<rparr>)) \<noteq> []"
    by (simp add: trim_def isWhiteSpace_def)
  have h2: "''b'' \<notin> task_id ` set (tasks ((mkState [mkTask ''a'' ''A'' True 0 2] [])\<lparr>newTaskTitle := ''B''\<rparr>))"
    by (simp add: mkState_def mkTask_def)
  from addTask_creates[OF h1 h2, of 3] obtain newTask :: Task where
    "addTask ''b'' 3 ((mkState [mkTask ''a'' ''A'' True 0 2] [])\<lparr>newTaskTitle := ''B''\<rparr>)
      = Some (mkState [mkTask ''a'' ''A'' True 0 2, newTask] [ADD_TASK newTask])"
    and "task_id newTask = ''b''" "title newTask = ''B''" "isCompleted newTask = False"
      "sortOrder newTask = 1" "createdAt newTask = Some 3" "updatedAt newTask = Some 3"
      "userId newTask = None"
    by (auto simp: mkState_def mkTask_def)
  moreover from this have "newTask = mkTask ''b'' ''B'' False 1 3"
    by (simp add: mkTask_def)
  ultimately show ?thesis
    by simp
qed

theorem addTask_sortOrder_counterexample:
  "map_option (length \<circ> activeTasks \<circ> tasks)
     (run [Add ''a'' 1 ''A'', ToggleComplete 2 ''a''] initState) = Some 0
   \<and> map_option (map sortOrder \<circ> tasks)
       (run [Add ''a'' 1 ''A'', ToggleComplete 2 ''a'', Add ''b'' 3 ''B''] initState)
     = Some [0, 1]"
  by (simp add: initState_def addTask_def toggleComplete_def applyOp_def
      patchOfTask_def noPatch_def applyPatch_def trim_def isWhiteSpace_def Let_def
      activeTasks_def)

section \<open>Renaming\<close>

lemma find_findIndex_same:
  "find P xs = Some x \<Longrightarrow> findIndex P xs = Some i \<Longrightarrow> xs ! i = x"
  using findIndex_Some by fastforce

text \<open>
  C5: for a known id, with \<open>task\<close> the task found. A text that is blank after trimming
  makes \<open>updateTaskTitle\<close> do what \<open>deleteTask\<close> does: the same collection and the same
  undo stack, whose new entry is the \<open>DELETE_TASK\<close> of the task (the state differs from
  that of \<open>deleteTask\<close> in the cleared \<open>editingId\<close> only). A non-blank text that differs
  from the title sets the title and \<open>updatedAt\<close> of the task and pushes
  \<open>UPDATE_TASK\<close> with the old and the new title. A non-blank text equal to the title
  changes neither the collection (so no \<open>updatedAt\<close>) nor the undo stack.
\<close>

theorem updateTaskTitle_cases:
  assumes "find (\<lambda>t. task_id t = k) (tasks s) = Some task"
  shows "(trim x = [] \<longrightarrow>
            (\<exists>s1 s2 i. updateTaskTitle now k x s = Some s1 \<and> deleteTask k s = Some s2
               \<and> s1 = s2\<lparr>editingId := None\<rparr>
               \<and> tasks s1 = tasks s2 \<and> undoStack s1 = undoStack s2
               \<and> tasks s1 = filter (\<lambda>t. task_id t \<noteq> k) (tasks s)
               \<and> undoStack s1 = undoStack s @ [DELETE_TASK task i]))
       \<and> (trim x \<noteq> [] \<and> x \<noteq> title task \<longrightarrow>
            updateTaskTitle now k x s =
              Some (s\<lparr>tasks := map (\<lambda>t. if task_id t = k
                          then t\<lparr>title := x, updatedAt := Some now\<rparr> else t) (tasks s),
                      undoStack := undoStack s @ [UPDATE_TASK k (title task) x],
                      editingId := None\<rparr>))
       \<and> (trim x \<noteq> [] \<and> x = title task \<longrightarrow>
            updateTaskTitle now k x s = Some (s\<lparr>editingId := None\<rparr>))"
proof (intro conjI impI)
  assume blank: "trim x = []"
  from find_findIndex[OF assms] obtain i where
    i: "findIndex (\<lambda>t. task_id t = k) (tasks s) = Some i" and ti: "tasks s ! i = task"
    by (elim exE conjE)
  define s2 where "s2 = s\<lparr>tasks := filter (\<lambda>t. task_id t \<noteq> k) (tasks s),
     undoStack := undoStack s @ [DELETE_TASK task i]\<rparr>"
  have d: "deleteTask k s = Some s2"
    using deleteTask_known[OF i] ti by (simp add: s2_def)
  have u: "updateTaskTitle now k x s = Some (s2\<lparr>editingId := None\<rparr>)"
    using updateTaskTitle_blank[OF assms blank] d by simp
  have "updateTaskTitle now k x s = Some (s2\<lparr>editingId := None\<rparr>) \<and> deleteTask k s = Some s2
               \<and> s2\<lparr>editingId := None\<rparr> = s2\<lparr>editingId := None\<rparr>
               \<and> tasks (s2\<lparr>editingId := None\<rparr>) = tasks s2
               \<and> undoStack (s2\<lparr>editingId := None\<rparr>) = undoStack s2
               \<and> tasks (s2\<lparr>editingId := None\<rparr>) = filter (\<lambda>t. task_id t \<noteq> k) (tasks s)
               \<and> undoStack (s2\<lparr>editingId := None\<rparr>) = undoStack s @ [DELETE_TASK task i]"
    using u d by (simp add: s2_def)
  then show "\<exists>s1 s2 i. updateTaskTitle now k x s = Some s1 \<and> deleteTask k s = Some s2
               \<and> s1 = s2\<lparr>editingId := None\<rparr>
               \<and> tasks s1 = tasks s2 \<and> undoStack s1 = undoStack s2
               \<and> tasks s1 = filter (\<lambda>t. task_id t \<noteq> k) (tasks s)
               \<and> undoStack s1 = undoStack s @ [DELETE_TASK task i]"
    by (intro exI)
next
  assume "trim x \<noteq> [] \<and> x \<noteq> title task"
  then show "updateTaskTitle now k x s =
              Some (s\<lparr>tasks := map (\<lambda>t. if task_id t = k
                          then t\<lparr>title := x, updatedAt := Some now\<rparr> else t) (tasks s),
                      undoStack := undoStack s @ [UPDATE_TASK k (title task) x],
                      editingId := None\<rparr>)"
    using updateTaskTitle_changed[OF assms, of x now] by blast
next
  assume "trim x \<noteq> [] \<and> x = title task"
  then show "updateTaskTitle now k x s = Some (s\<lparr>editingId := None\<rparr>)"
    using updateTaskTitle_same[OF assms, of x now] by blast
qed


theorem updateTaskTitle_cases_witness:
  "updateTaskTitle 5 ''a'' ''  '' (mkState [mkTask ''a'' ''A'' False 0 1] [])
     = Some (mkState [] [DELETE_TASK (mkTask ''a'' ''A'' False 0 1) 0])
   \<and> deleteTask ''a'' (mkState [mkTask ''a'' ''A'' False 0 1] [])
     = Some (mkState [] [DELETE_TASK (mkTask ''a'' ''A'' False 0 1) 0])
   \<and> updateTaskTitle 5 ''a'' ''B'' (mkState [mkTask ''a'' ''A'' False 0 1] [])
     = Some (mkState [(mkTask ''a'' ''B'' False 0 1)\<lparr>updatedAt := Some 5\<rparr>]
               [UPDATE_TASK ''a'' ''A'' ''B''])
   \<and> updateTaskTitle 5 ''a'' ''A'' (mkState [mkTask ''a'' ''A'' False 0 1] [])
     = Some (mkState [mkTask ''a'' ''A'' False 0 1] [])"
proof -
  let ?s = "mkState [mkTask ''a'' ''A'' False 0 1] []"
  let ?t = "mkTask ''a'' ''A'' False 0 1"
  have known: "find (\<lambda>t. task_id t = ''a'') (tasks ?s) = Some ?t"
    by (simp add: mkState_def mkTask_def)
  have blank: "trim ''  '' = []"
    by (simp add: trim_def isWhiteSpace_def)
  have changed: "trim ''B'' \<noteq> [] \<and> ''B'' \<noteq> title ?t"
    by (simp add: trim_def isWhiteSpace_def mkTask_def)
  have same: "trim ''A'' \<noteq> [] \<and> ''A'' = title ?t"
    by (simp add: trim_def isWhiteSpace_def mkTask_def)
  from updateTaskTitle_cases[OF known, of "''  ''" 5, THEN conjunct1, THEN mp, OF blank]
  obtain s1 s2 where
    u: "updateTaskTitle 5 ''a'' ''  '' ?s = Some s1" and d: "deleteTask ''a'' ?s = Some s2"
    and e: "s1 = s2\<lparr>editingId := None\<rparr>"
    by (elim exE conjE)
  have c1': "deleteTask ''a'' ?s = Some (mkState [] [DELETE_TASK ?t 0])"
    by (simp add: deleteTask_def mkState_def mkTask_def applyOp_def)
  with d have "s2 = mkState [] [DELETE_TASK ?t 0]"
    by simp
  with e have "s1 = mkState [] [DELETE_TASK ?t 0]"
    by (simp add: mkState_def)
  with u have c1: "updateTaskTitle 5 ''a'' ''  '' ?s = Some (mkState [] [DELETE_TASK ?t 0])"
    by simp
  from updateTaskTitle_cases[OF known, of "''B''" 5, THEN conjunct2, THEN conjunct1, THEN mp,
      OF changed]
  have c2: "updateTaskTitle 5 ''a'' ''B'' ?s
     = Some (mkState [(mkTask ''a'' ''B'' False 0 1)\<lparr>updatedAt := Some 5\<rparr>]
               [UPDATE_TASK ''a'' ''A'' ''B''])"
    by (simp add: mkState_def mkTask_def)
  from updateTaskTitle_cases[OF known, of "''A''" 5, THEN conjunct2, THEN conjunct2, THEN mp,
      OF same]
  have c3: "updateTaskTitle 5 ''a'' ''A'' ?s = Some ?s"
    by (simp add: mkState_def)
  from c1 c1' c2 c3 show ?thesis by simp
qed

section \<open>Validation misses and the undo stack\<close>

lemma handleReorder_undoStack:
  "handleReorder now newOrder s = Some s' \<Longrightarrow> undoStack s' = undoStack s"
  by (auto simp: handleReorder_def)

lemma undo_pops:
  "undo now s = Some s' \<Longrightarrow> undoStack s \<noteq> [] \<Longrightarrow> undoStack s' = butlast (undoStack s)"
  by (auto simp: undo_def Let_def)

lemma addTask_push:
  "\<exists>s'. addTask newId now s = Some s'
     \<and> (s' = s \<or> (\<exists>a. undoStack s' = undoStack s @ [a]))"
proof (cases "trim (newTaskTitle s) = []")
  case True
  then show ?thesis by (simp add: addTask_blank)
next
  case False
  obtain s' where s': "addTask newId now s = Some s'"
    using addTask_total by blast
  with False have "undoStack s' = undoStack s @ [ADD_TASK \<lparr>task_id = newId,
      title = newTaskTitle s, isCompleted = False, sortOrder = int (length (tasks s)),
      createdAt = Some now, updatedAt = Some now, userId = None\<rparr>]"
    by (auto simp: addTask_def Let_def simp del: transact.simps)
  with s' show ?thesis by blast
qed

lemma toggleComplete_push:
  "\<exists>s'. toggleComplete now k s = Some s'
     \<and> (s' = s \<or> (\<exists>a. undoStack s' = undoStack s @ [a]))"
  by (cases "find (\<lambda>t. task_id t = k) (tasks s)")
     (simp_all add: toggleComplete_unknown toggleComplete_known)

lemma deleteTask_push:
  "\<exists>s'. deleteTask k s = Some s'
     \<and> (s' = s \<or> (\<exists>a. undoStack s' = undoStack s @ [a]))"
proof (cases "findIndex (\<lambda>t. task_id t = k) (tasks s)")
  case None
  then show ?thesis by (simp add: deleteTask_def)
next
  case (Some i)
  show ?thesis unfolding deleteTask_known[OF Some] by simp
qed

lemma updateTaskTitle_push:
  "\<exists>s'. updateTaskTitle now k x s = Some s'
     \<and> (tasks s' = tasks s \<and> undoStack s' = undoStack s
          \<or> (\<exists>a. undoStack s' = undoStack s @ [a]))"
proof (cases "find (\<lambda>t. task_id t = k) (tasks s)")
  case None
  then show ?thesis by (simp add: updateTaskTitle_unknown)
next
  case (Some task)
  show ?thesis
  proof (cases "trim x = []")
    case True
    from deleteTask_push[of k s] obtain s2 where
      "deleteTask k s = Some s2" "s2 = s \<or> (\<exists>a. undoStack s2 = undoStack s @ [a])"
      by (elim exE conjE)
    then show ?thesis
      unfolding updateTaskTitle_blank[OF Some True] by auto
  next
    case False
    then show ?thesis
      by (cases "x = title task")
         (simp_all add: updateTaskTitle_same[OF Some] updateTaskTitle_changed[OF Some])
  qed
qed

lemma exec_push:
  "\<exists>s'. exec c s = Some s'
     \<and> (tasks s' = tasks s \<and> undoStack s' = undoStack s
          \<or> (\<exists>a. undoStack s' = undoStack s @ [a]))"
proof (cases c)
  case (Add newId now x)
  from addTask_push[of newId now "s\<lparr>newTaskTitle := x\<rparr>"] show ?thesis
    unfolding Add by auto
next
  case (ToggleComplete now k)
  from toggleComplete_push[of now k s] show ?thesis
    unfolding ToggleComplete by auto
next
  case (DeleteCmd k)
  from deleteTask_push[of k s] show ?thesis
    unfolding DeleteCmd by auto
next
  case (Rename now k x)
  from updateTaskTitle_push[of now k x s] show ?thesis
    unfolding Rename by simp
qed

lemma map_changes:
  fixes g :: "Task \<Rightarrow> Task"
  assumes "t \<in> set ts" and "g t \<noteq> t"
  shows "map g ts \<noteq> ts"
proof
  assume "map g ts = ts"
  then have "map g ts = map (\<lambda>x. x) ts" by simp
  then have "\<forall>x\<in>set ts. g x = x" by (simp only: map_eq_conv)
  with assms show False by blast
qed

lemma delete_changes:
  assumes "find (\<lambda>t. task_id t = k) ts = Some task"
  shows "filter (\<lambda>t. task_id t \<noteq> k) ts \<noteq> ts"
proof -
  from find_task_id[OF assms] have "task \<in> set ts" "\<not> task_id task \<noteq> k"
    by simp_all
  then have "length (filter (\<lambda>t. task_id t \<noteq> k) ts) < length ts"
    by (rule length_filter_less)
  then show ?thesis by auto
qed

lemma toggleComplete_logs:
  "\<exists>s'. toggleComplete now k s = Some s'
     \<and> (s' = s \<or> tasks s' \<noteq> tasks s \<and> (\<exists>a. undoStack s' = undoStack s @ [a]))"
proof (cases "find (\<lambda>t. task_id t = k) (tasks s)")
  case None
  then show ?thesis by (simp add: toggleComplete_unknown)
next
  case (Some task)
  define g :: "Task \<Rightarrow> Task" where "g = (\<lambda>t. if task_id t = k
     then t\<lparr>isCompleted := \<not> isCompleted task, updatedAt := Some now\<rparr> else t)"
  from find_task_id[OF Some] have tin: "task \<in> set (tasks s)" and tk: "task_id task = k"
    by simp_all
  have "isCompleted (g task) \<noteq> isCompleted task"
    using tk by (simp add: g_def)
  then have "g task \<noteq> task"
    by auto
  with tin have "map g (tasks s) \<noteq> tasks s"
    by (rule map_changes[of task "tasks s" g])
  then show ?thesis
    unfolding toggleComplete_known[OF Some] g_def by simp
qed

lemma deleteTask_logs:
  "\<exists>s'. deleteTask k s = Some s'
     \<and> (s' = s \<or> tasks s' \<noteq> tasks s \<and> (\<exists>a. undoStack s' = undoStack s @ [a]))"
proof (cases "findIndex (\<lambda>t. task_id t = k) (tasks s)")
  case None
  then show ?thesis by (simp add: deleteTask_def)
next
  case (Some i)
  from findIndex_Some[OF Some] have "find (\<lambda>t. task_id t = k) (tasks s) = Some (tasks s ! i)"
    by simp
  from delete_changes[OF this] show ?thesis
    unfolding deleteTask_known[OF Some] by simp
qed

lemma updateTaskTitle_logs:
  "\<exists>s'. updateTaskTitle now k x s = Some s'
     \<and> (tasks s' = tasks s \<and> undoStack s' = undoStack s
          \<or> tasks s' \<noteq> tasks s \<and> (\<exists>a. undoStack s' = undoStack s @ [a]))"
proof (cases "find (\<lambda>t. task_id t = k) (tasks s)")
  case None
  then show ?thesis by (simp add: updateTaskTitle_unknown)
next
  case (Some task)
  from find_task_id[OF Some] have tin: "task \<in> set (tasks s)" and tk: "task_id task = k"
    by simp_all
  show ?thesis
  proof (cases "trim x = []")
    case True
    from find_findIndex[OF Some] obtain i where
      i: "findIndex (\<lambda>t. task_id t = k) (tasks s) = Some i"
      by blast
    from delete_changes[OF Some] show ?thesis
      unfolding updateTaskTitle_blank[OF Some True] deleteTask_known[OF i] by simp
  next
    case False
    show ?thesis
    proof (cases "x = title task")
      case True
      with False show ?thesis
        by (simp add: updateTaskTitle_same[OF Some])
    next
      case neq: False
      define g :: "Task \<Rightarrow> Task" where "g = (\<lambda>t. if task_id t = k
         then t\<lparr>title := x, updatedAt := Some now\<rparr> else t)"
      have "title (g task) \<noteq> title task"
        using tk neq by (simp add: g_def)
      then have "g task \<noteq> task"
        by auto
      with tin have "map g (tasks s) \<noteq> tasks s"
        by (rule map_changes[of task "tasks s" g])
      then show ?thesis
        unfolding updateTaskTitle_changed[OF Some False neq] g_def by simp
    qed
  qed
qed

lemma addTask_logs:
  assumes "newId \<notin> task_id ` set (tasks s)"
  shows "\<exists>s'. addTask newId now s = Some s'
     \<and> (s' = s \<or> tasks s' \<noteq> tasks s \<and> (\<exists>a. undoStack s' = undoStack s @ [a]))"
proof (cases "trim (newTaskTitle s) = []")
  case True
  then show ?thesis by (simp add: addTask_blank)
next
  case False
  show ?thesis
    unfolding addTask_fresh[OF False assms] Let_def by simp
qed

lemma transact_reorder_known:
  "task_id ` set new \<subseteq> task_id ` set ts \<Longrightarrow>
   \<exists>ts'. transact
     (map (\<lambda>(index, task). Update (task_id task)
             (noPatch\<lparr>p_sortOrder := Some (int index), p_updatedAt := Some (now index)\<rparr>))
          (enumerate n new)) ts = Some ts'"
proof (induction new arbitrary: n ts)
  case Nil
  then show ?case by simp
next
  case (Cons a rest)
  define g :: "Task \<Rightarrow> Task" where "g = (\<lambda>t. if task_id t = task_id a
              then applyPatch (noPatch\<lparr>p_sortOrder := Some (int n),
                     p_updatedAt := Some (now n)\<rparr>) t else t)"
  from Cons.prems have a_in: "task_id a \<in> task_id ` set ts"
    and sub: "task_id ` set rest \<subseteq> task_id ` set ts"
    by auto
  have first: "applyOp (Update (task_id a)
       (noPatch\<lparr>p_sortOrder := Some (int n), p_updatedAt := Some (now n)\<rparr>)) ts = Some (map g ts)"
    by (simp add: applyOp_Update_known[OF a_in] g_def)
  have "task_id (g t) = task_id t" for t
    by (simp add: g_def task_id_applyPatch)
  then have "task_id ` set (map g ts) = task_id ` set ts"
    by (simp add: image_image)
  with sub have "task_id ` set rest \<subseteq> task_id ` set (map g ts)"
    by simp
  from Cons.IH[OF this, of "Suc n"] first show ?case
    by simp
qed

lemma handleReorder_known:
  assumes "task_id ` set newOrder \<subseteq> task_id ` set (tasks s)"
  shows "\<exists>s'. handleReorder now newOrder s = Some s' \<and> undoStack s' = undoStack s"
proof -
  from transact_reorder_known[OF assms, of now 0] obtain ts' where
    "transact
     (map (\<lambda>(index, task). Update (task_id task)
             (noPatch\<lparr>p_sortOrder := Some (int index), p_updatedAt := Some (now index)\<rparr>))
          (enumerate 0 newOrder)) (tasks s) = Some ts'"
    by blast
  then show ?thesis
    by (simp add: handleReorder_def)
qed

lemma undo_returns:
  assumes ne: "undoStack s \<noteq> []" and kn: "undoKnown s"
  shows "\<exists>s'. undo now s = Some s' \<and> undoStack s' = butlast (undoStack s)"
proof -
  have "\<exists>ts'. (case last (undoStack s) of
                ADD_TASK task \<Rightarrow> transact [Delete (task_id task)] (tasks s)
              | DELETE_TASK task index \<Rightarrow>
                  transact [Update (task_id task)
                    ((patchOfTask task)\<lparr>p_updatedAt := Some now\<rparr>)] (tasks s)
              | TOGGLE_COMPLETE taskId wasCompleted \<Rightarrow>
                  transact [Update taskId
                    (noPatch\<lparr>p_isCompleted := Some wasCompleted, p_updatedAt := Some now\<rparr>)]
                    (tasks s)
              | UPDATE_TASK taskId oldTitle newTitle \<Rightarrow>
                  transact [Update taskId
                    (noPatch\<lparr>p_title := Some oldTitle, p_updatedAt := Some now\<rparr>)]
                    (tasks s)) = Some ts'"
  proof (cases "last (undoStack s)")
    case (ADD_TASK task)
    then show ?thesis by (simp add: applyOp_Delete)
  next
    case (DELETE_TASK task index)
    then show ?thesis
      by (simp add: applyOp_def patchOfTask_def)
  next
    case (TOGGLE_COMPLETE taskId wasCompleted)
    with kn have "taskId \<in> task_id ` set (tasks s)"
      by (simp add: undoKnown_def)
    with TOGGLE_COMPLETE show ?thesis
      by (simp add: applyOp_Update_known)
  next
    case (UPDATE_TASK taskId oldTitle newTitle)
    with kn have "taskId \<in> task_id ` set (tasks s)"
      by (simp add: undoKnown_def)
    with UPDATE_TASK show ?thesis
      by (simp add: applyOp_Update_known)
  qed
  then obtain ts' where "(case last (undoStack s) of
                ADD_TASK task \<Rightarrow> transact [Delete (task_id task)] (tasks s)
              | DELETE_TASK task index \<Rightarrow>
                  transact [Update (task_id task)
                    ((patchOfTask task)\<lparr>p_updatedAt := Some now\<rparr>)] (tasks s)
              | TOGGLE_COMPLETE taskId wasCompleted \<Rightarrow>
                  transact [Update taskId
                    (noPatch\<lparr>p_isCompleted := Some wasCompleted, p_updatedAt := Some now\<rparr>)]
                    (tasks s)
              | UPDATE_TASK taskId oldTitle newTitle \<Rightarrow>
                  transact [Update taskId
                    (noPatch\<lparr>p_title := Some oldTitle, p_updatedAt := Some now\<rparr>)]
                    (tasks s)) = Some ts'"
    by blast
  with ne show ?thesis
    by (simp add: undo_def Let_def del: transact.simps)
qed


lemma exec_never_pops:
  "\<exists>s' us. exec c s = Some s' \<and> undoStack s' = undoStack s @ us \<and> length us \<le> 1"
proof -
  from exec_push[of c s] obtain s' where
    e: "exec c s = Some s'"
    and d: "tasks s' = tasks s \<and> undoStack s' = undoStack s
            \<or> (\<exists>a. undoStack s' = undoStack s @ [a])"
    by (elim exE conjE)
  from d show ?thesis
  proof
    assume "tasks s' = tasks s \<and> undoStack s' = undoStack s"
    then have "undoStack s' = undoStack s @ [] \<and> length ([] :: Action list) \<le> 1"
      by simp
    with e show ?thesis by blast
  next
    assume "\<exists>a. undoStack s' = undoStack s @ [a]"
    then obtain a where "undoStack s' = undoStack s @ [a]" ..
    then have "undoStack s' = undoStack s @ [a] \<and> length [a] \<le> 1"
      by simp
    with e show ?thesis by blast
  qed
qed

text \<open>
  The hypothesis under which \<open>undo\<close> is shown to return, \<open>undoKnown\<close>, holds of every
  state the handlers reach from the empty one while \<^verbatim>\<open>id()\<close> returns fresh ids: the whole
  stack can then be replayed (\<open>undoReady\<close>), which the empty state satisfies and each of
  \<open>addTask\<close>, \<open>toggleComplete\<close>, \<open>deleteTask\<close>, \<open>updateTaskTitle\<close>, \<open>handleReorder\<close> and
  \<open>undo\<close> keeps; and \<open>undo\<close> returns in each such state.
\<close>

lemma undoReady_initState: "undoReady initState"
  by (simp add: undoReady_def initState_def)

lemma undoReady_undoKnown: "undoReady s \<Longrightarrow> undoStack s \<noteq> [] \<Longrightarrow> undoKnown s"
proof -
  assume r: "undoReady s" and ne: "undoStack s \<noteq> []"
  from ne have eq: "undoStack s = butlast (undoStack s) @ [last (undoStack s)]"
    by simp
  have "undoable (set (map task_id (tasks s))) (last (undoStack s) # rev (butlast (undoStack s)))"
    using r unfolding undoReady_def by (subst (asm) eq) simp
  then show ?thesis
    by (cases "last (undoStack s)") (simp_all add: undoKnown_def)
qed

lemma applyOp_idset:
  "applyOp op ts = Some ts' \<Longrightarrow>
   task_id ` set ts' = (case op of Delete k \<Rightarrow> task_id ` set ts - {k}
                        | Update k p \<Rightarrow> insert k (task_id ` set ts))"
proof (cases op)
  case (Update k p)
  assume a: "applyOp op ts = Some ts'"
  show ?thesis
  proof (cases "k \<in> task_id ` set ts")
    case True
    define g where "g = (\<lambda>t. if task_id t = k then applyPatch p t else t)"
    from a Update True have "ts' = map g ts"
      by (simp add: applyOp_def g_def)
    moreover have "task_id (g t) = task_id t" for t
      by (simp add: g_def task_id_applyPatch)
    ultimately have "task_id ` set ts' = task_id ` set ts"
      by (simp add: image_image)
    with True Update show ?thesis by auto
  next
    case False
    with a Update obtain t where "ts' = ts @ [t]" "task_id t = k"
      by (auto simp: applyOp_def split: option.splits)
    with Update show ?thesis by simp
  qed
next
  case (Delete k)
  assume a: "applyOp op ts = Some ts'"
  with Delete have "ts' = filter (\<lambda>t. task_id t \<noteq> k) ts"
    by (simp add: applyOp_def)
  with Delete show ?thesis by auto
qed

lemma addTask_undoReady:
  assumes "undoReady s" and "newId \<notin> task_id ` set (tasks s)"
    and "addTask newId now s = Some s'"
  shows "undoReady s'"
proof (cases "trim (newTaskTitle s) = []")
  case True
  with assms show ?thesis by (simp add: addTask_blank)
next
  case False
  from assms(3) have s': "s' = s\<lparr>tasks := tasks s @ [\<lparr>task_id = newId, title = newTaskTitle s,
      isCompleted = False, sortOrder = int (length (tasks s)), createdAt = Some now,
      updatedAt = Some now, userId = None\<rparr>],
     undoStack := undoStack s @ [ADD_TASK \<lparr>task_id = newId, title = newTaskTitle s,
      isCompleted = False, sortOrder = int (length (tasks s)), createdAt = Some now,
      updatedAt = Some now, userId = None\<rparr>], newTaskTitle := []\<rparr>"
    unfolding addTask_fresh[OF False assms(2)] Let_def by simp
  from assms(2) have "insert newId (task_id ` set (tasks s)) - {newId} = task_id ` set (tasks s)"
    by blast
  with assms(1) show ?thesis
    by (simp add: undoReady_def s')
qed

lemma toggleComplete_undoReady:
  assumes "undoReady s" and "toggleComplete now k s = Some s'"
  shows "undoReady s'"
proof (cases "find (\<lambda>t. task_id t = k) (tasks s)")
  case None
  with assms show ?thesis by (simp add: toggleComplete_unknown)
next
  case (Some task)
  define g :: "Task \<Rightarrow> Task" where "g = (\<lambda>t. if task_id t = k
     then t\<lparr>isCompleted := \<not> isCompleted task, updatedAt := Some now\<rparr> else t)"
  from assms(2) have s': "s' = s\<lparr>tasks := map g (tasks s),
      undoStack := undoStack s @ [TOGGLE_COMPLETE k (isCompleted task)]\<rparr>"
    unfolding toggleComplete_known[OF Some] g_def by simp
  have "task_id (g t) = task_id t" for t
    by (simp add: g_def)
  then have ids: "(\<lambda>t. task_id (g t)) ` set (tasks s) = task_id ` set (tasks s)"
    by simp
  from find_known[OF Some] assms(1) show ?thesis
    by (simp add: undoReady_def s' ids)
qed

lemma deleteTask_undoReady:
  assumes "undoReady s" and "deleteTask k s = Some s'"
  shows "undoReady s'"
proof (cases "findIndex (\<lambda>t. task_id t = k) (tasks s)")
  case None
  with assms show ?thesis by (simp add: deleteTask_def)
next
  case (Some i)
  from findIndex_Some[OF Some] have f: "find (\<lambda>t. task_id t = k) (tasks s) = Some (tasks s ! i)"
    by simp
  from find_task_id[OF f] have tk: "task_id (tasks s ! i) = k"
    by simp
  from find_known[OF f] have kin: "k \<in> task_id ` set (tasks s)" .
  from assms(2) have s': "s' = s\<lparr>tasks := filter (\<lambda>t. task_id t \<noteq> k) (tasks s),
             undoStack := undoStack s @ [DELETE_TASK (tasks s ! i) i]\<rparr>"
    unfolding deleteTask_known[OF Some] by simp
  have "task_id ` set (filter (\<lambda>t. task_id t \<noteq> k) (tasks s)) = task_id ` set (tasks s) - {k}"
    by auto
  with kin have "insert k (task_id ` set (filter (\<lambda>t. task_id t \<noteq> k) (tasks s)))
      = task_id ` set (tasks s)"
    by blast
  with assms(1) show ?thesis
    by (simp add: undoReady_def s' tk del: set_filter)
qed

lemma undoReady_editingId: "undoReady (s\<lparr>editingId := e\<rparr>) = undoReady s"
  by (simp add: undoReady_def)

lemma updateTaskTitle_undoReady:
  assumes "undoReady s" and "updateTaskTitle now k x s = Some s'"
  shows "undoReady s'"
proof (cases "find (\<lambda>t. task_id t = k) (tasks s)")
  case None
  with assms show ?thesis by (simp add: updateTaskTitle_unknown)
next
  case (Some task)
  show ?thesis
  proof (cases "trim x = []")
    case True
    from deleteTask_total[of k s] obtain s2 where s2: "deleteTask k s = Some s2" ..
    from deleteTask_undoReady[OF assms(1) s2] have "undoReady s2" .
    moreover from assms(2) s2 have "s' = s2\<lparr>editingId := None\<rparr>"
      unfolding updateTaskTitle_blank[OF Some True] by simp
    ultimately show ?thesis
      by (simp add: undoReady_editingId)
  next
    case False
    show ?thesis
    proof (cases "x = title task")
      case True
      from assms(2) have "s' = s\<lparr>editingId := None\<rparr>"
        unfolding updateTaskTitle_same[OF Some False True] by simp
      with assms(1) show ?thesis
        by (simp add: undoReady_editingId)
    next
      case neq: False
      define g :: "Task \<Rightarrow> Task" where "g = (\<lambda>t. if task_id t = k
         then t\<lparr>title := x, updatedAt := Some now\<rparr> else t)"
      from assms(2) have s': "s' = s\<lparr>tasks := map g (tasks s),
          undoStack := undoStack s @ [UPDATE_TASK k (title task) x], editingId := None\<rparr>"
        unfolding updateTaskTitle_changed[OF Some False neq] g_def by simp
      have "task_id (g t) = task_id t" for t
        by (simp add: g_def)
      then have ids: "(\<lambda>t. task_id (g t)) ` set (tasks s) = task_id ` set (tasks s)"
        by simp
      from find_known[OF Some] assms(1) show ?thesis
        by (simp add: undoReady_def s' ids)
    qed
  qed
qed

lemma exec_undoReady:
  assumes "undoReady s" and "exec c s = Some s'"
    and "\<And>newId now x. c = Add newId now x \<Longrightarrow> newId \<notin> task_id ` set (tasks s)"
  shows "undoReady s'"
proof (cases c)
  case (Add newId now x)
  from assms(1) have "undoReady (s\<lparr>newTaskTitle := x\<rparr>)"
    by (simp add: undoReady_def)
  moreover from assms(3)[OF Add] have "newId \<notin> task_id ` set (tasks (s\<lparr>newTaskTitle := x\<rparr>))"
    by simp
  moreover from assms(2) Add have "addTask newId now (s\<lparr>newTaskTitle := x\<rparr>) = Some s'"
    by simp
  ultimately show ?thesis by (rule addTask_undoReady)
next
  case (ToggleComplete now k)
  with assms show ?thesis by (simp add: toggleComplete_undoReady)
next
  case (DeleteCmd k)
  with assms show ?thesis by (simp add: deleteTask_undoReady)
next
  case (Rename now k x)
  with assms show ?thesis by (simp add: updateTaskTitle_undoReady)
qed

lemma transact_reorder_idset:
  "transact
     (map (\<lambda>(index, task). Update (task_id task)
             (noPatch\<lparr>p_sortOrder := Some (int index), p_updatedAt := Some (now index)\<rparr>))
          (enumerate n new)) ts = Some ts' \<Longrightarrow>
   task_id ` set ts' = task_id ` set ts"
proof (induction new arbitrary: n ts)
  case Nil
  then show ?case by simp
next
  case (Cons a rest)
  let ?p = "noPatch\<lparr>p_sortOrder := Some (int n), p_updatedAt := Some (now n)\<rparr>"
  from Cons.prems obtain ts1 where
    first: "applyOp (Update (task_id a) ?p) ts = Some ts1"
    and rest: "transact
     (map (\<lambda>(index, task). Update (task_id task)
             (noPatch\<lparr>p_sortOrder := Some (int index), p_updatedAt := Some (now index)\<rparr>))
          (enumerate (Suc n) rest)) ts1 = Some ts'"
    by (auto split: option.splits)
  from first have known: "task_id a \<in> task_id ` set ts"
    by (auto simp: applyOp_def noPatch_def split: if_splits)
  from applyOp_idset[OF first] known have "task_id ` set ts1 = task_id ` set ts"
    by auto
  with Cons.IH[OF rest] show ?case by simp
qed

lemma handleReorder_undoReady:
  assumes "undoReady s" and "handleReorder now newOrder s = Some s'"
  shows "undoReady s'"
proof -
  from assms(2) obtain ts' where
    t: "transact
     (map (\<lambda>(index, task). Update (task_id task)
             (noPatch\<lparr>p_sortOrder := Some (int index), p_updatedAt := Some (now index)\<rparr>))
          (enumerate 0 newOrder)) (tasks s) = Some ts'"
    and s': "s' = s\<lparr>tasks := ts'\<rparr>"
    by (auto simp: handleReorder_def simp del: transact.simps)
  from transact_reorder_idset[OF t] assms(1) show ?thesis
    by (simp add: undoReady_def s')
qed

lemma undo_undoReady:
  assumes r: "undoReady s"
  shows "\<exists>s'. undo now s = Some s' \<and> undoReady s' \<and> undoStack s' = butlast (undoStack s)"
proof (cases "undoStack s = []")
  case True
  with r show ?thesis by (simp add: undo_empty)
next
  case False
  from undo_returns[OF False undoReady_undoKnown[OF r False], of now] obtain s' where
    u: "undo now s = Some s'" and pop: "undoStack s' = butlast (undoStack s)"
    by (elim exE conjE)
  from False have eq: "undoStack s = butlast (undoStack s) @ [last (undoStack s)]"
    by simp
  have top: "undoable (set (map task_id (tasks s)))
      (last (undoStack s) # rev (butlast (undoStack s)))"
    using r unfolding undoReady_def by (subst (asm) eq) simp
  have "undoable (set (map task_id (tasks s'))) (rev (butlast (undoStack s)))"
  proof (cases "last (undoStack s)")
    case (ADD_TASK task)
    with u False have "tasks s' = filter (\<lambda>t. task_id t \<noteq> task_id task) (tasks s)"
      by (auto simp: undo_def Let_def applyOp_Delete)
    then have "set (map task_id (tasks s')) = set (map task_id (tasks s)) - {task_id task}"
      by auto
    with top ADD_TASK show ?thesis by simp
  next
    case (DELETE_TASK task index)
    with u False obtain ts' where
      "applyOp (Update (task_id task) ((patchOfTask task)\<lparr>p_updatedAt := Some now\<rparr>)) (tasks s)
         = Some ts'" "tasks s' = ts'"
      by (auto simp: undo_def Let_def split: option.splits)
    from applyOp_idset[OF this(1)] this(2)
    have "set (map task_id (tasks s')) = insert (task_id task) (set (map task_id (tasks s)))"
      by simp
    with top DELETE_TASK show ?thesis by simp
  next
    case (TOGGLE_COMPLETE taskId wasCompleted)
    with top have kin: "taskId \<in> task_id ` set (tasks s)"
      by simp
    from u False TOGGLE_COMPLETE obtain ts' where
      "applyOp (Update taskId
         (noPatch\<lparr>p_isCompleted := Some wasCompleted, p_updatedAt := Some now\<rparr>)) (tasks s)
         = Some ts'" "tasks s' = ts'"
      by (auto simp: undo_def Let_def split: option.splits)
    from applyOp_idset[OF this(1)] this(2) kin
    have "set (map task_id (tasks s')) = set (map task_id (tasks s))"
      by auto
    with top TOGGLE_COMPLETE show ?thesis by simp
  next
    case (UPDATE_TASK taskId oldTitle newTitle)
    with top have kin: "taskId \<in> task_id ` set (tasks s)"
      by simp
    from u False UPDATE_TASK obtain ts' where
      "applyOp (Update taskId
         (noPatch\<lparr>p_title := Some oldTitle, p_updatedAt := Some now\<rparr>)) (tasks s)
         = Some ts'" "tasks s' = ts'"
      by (auto simp: undo_def Let_def split: option.splits)
    from applyOp_idset[OF this(1)] this(2) kin
    have "set (map task_id (tasks s')) = set (map task_id (tasks s))"
      by auto
    with top UPDATE_TASK show ?thesis by simp
  qed
  with pop have "undoReady s'"
    by (simp add: undoReady_def)
  with u pop show ?thesis by blast
qed

text \<open>
  C6, as the code has it. The misses that change nothing at all: \<open>addTask\<close> with a text
  that is blank after trimming, \<open>toggleComplete\<close>, \<open>deleteTask\<close> and \<open>updateTaskTitle\<close>
  on an id the collection does not hold, and \<open>undo\<close> on an empty stack; each returns the
  state it was given. A blank text for a known id is not among them: \<open>updateTaskTitle\<close>
  then deletes the task and pushes its \<open>DELETE_TASK\<close> entry. An entry is pushed exactly
  when the collection changes, and then exactly one: \<open>addTask\<close> with a fresh id,
  \<open>toggleComplete\<close> and \<open>deleteTask\<close> each return either the state they were given, or a
  state with another collection and one more entry on the stack; \<open>updateTaskTitle\<close>
  returns either the collection and the stack it was given, or another collection and
  one more entry. No command takes an entry off: the stack after it is the stack before
  it with at most one entry added. \<open>handleReorder\<close>, given tasks the collection holds,
  returns and leaves the stack as it was, whatever it does to the collection. \<open>undo\<close> on
  a non-empty stack whose top entry writes to a task the collection holds returns, and
  takes off exactly the top entry.
\<close>

theorem validation_misses:
  "(trim (newTaskTitle s) = [] \<longrightarrow> addTask newId now s = Some s)
   \<and> (find (\<lambda>t. task_id t = k) (tasks s) = None \<longrightarrow>
        toggleComplete now k s = Some s \<and> deleteTask k s = Some s
        \<and> updateTaskTitle now k x s = Some s)
   \<and> (undoStack s = [] \<longrightarrow> undo now s = Some s)
   \<and> (find (\<lambda>t. task_id t = k) (tasks s) = Some task \<and> trim x = [] \<longrightarrow>
        (\<exists>s' i. updateTaskTitle now k x s = Some s'
           \<and> tasks s' = filter (\<lambda>t. task_id t \<noteq> k) (tasks s)
           \<and> undoStack s' = undoStack s @ [DELETE_TASK task i]))
   \<and> (newId \<notin> task_id ` set (tasks s) \<longrightarrow>
        (\<exists>s'. addTask newId now s = Some s'
           \<and> (s' = s \<or> tasks s' \<noteq> tasks s \<and> (\<exists>a. undoStack s' = undoStack s @ [a]))))
   \<and> (\<exists>s'. toggleComplete now k s = Some s'
         \<and> (s' = s \<or> tasks s' \<noteq> tasks s \<and> (\<exists>a. undoStack s' = undoStack s @ [a])))
   \<and> (\<exists>s'. deleteTask k s = Some s'
         \<and> (s' = s \<or> tasks s' \<noteq> tasks s \<and> (\<exists>a. undoStack s' = undoStack s @ [a])))
   \<and> (\<exists>s'. updateTaskTitle now k x s = Some s'
         \<and> (tasks s' = tasks s \<and> undoStack s' = undoStack s
              \<or> tasks s' \<noteq> tasks s \<and> (\<exists>a. undoStack s' = undoStack s @ [a])))
   \<and> (\<exists>s' us. exec c s = Some s' \<and> undoStack s' = undoStack s @ us \<and> length us \<le> 1)
   \<and> (task_id ` set newOrder \<subseteq> task_id ` set (tasks s) \<longrightarrow>
        (\<exists>s'. handleReorder nows newOrder s = Some s' \<and> undoStack s' = undoStack s))
   \<and> (undoStack s \<noteq> [] \<and> undoKnown s \<longrightarrow>
        (\<exists>s'. undo now s = Some s' \<and> undoStack s' = butlast (undoStack s)))"
proof (intro conjI impI)
  assume "trim (newTaskTitle s) = []"
  then show "addTask newId now s = Some s" by (rule addTask_blank)
next
  assume "find (\<lambda>t. task_id t = k) (tasks s) = None"
  then show "toggleComplete now k s = Some s" by (rule toggleComplete_unknown)
next
  assume "find (\<lambda>t. task_id t = k) (tasks s) = None"
  then show "deleteTask k s = Some s" by (rule deleteTask_unknown)
next
  assume "find (\<lambda>t. task_id t = k) (tasks s) = None"
  then show "updateTaskTitle now k x s = Some s" by (rule updateTaskTitle_unknown)
next
  assume "undoStack s = []"
  then show "undo now s = Some s" by (rule undo_empty)
next
  assume a: "find (\<lambda>t. task_id t = k) (tasks s) = Some task \<and> trim x = []"
  then have known: "find (\<lambda>t. task_id t = k) (tasks s) = Some task" and blank: "trim x = []"
    by simp_all
  from find_findIndex[OF known] obtain i where
    i: "findIndex (\<lambda>t. task_id t = k) (tasks s) = Some i" and ti: "tasks s ! i = task"
    by (elim exE conjE)
  have "updateTaskTitle now k x s
     = Some (s\<lparr>tasks := filter (\<lambda>t. task_id t \<noteq> k) (tasks s),
               undoStack := undoStack s @ [DELETE_TASK task i], editingId := None\<rparr>)"
    unfolding updateTaskTitle_blank[OF known blank] deleteTask_known[OF i] ti by simp
  then show "\<exists>s' i. updateTaskTitle now k x s = Some s'
           \<and> tasks s' = filter (\<lambda>t. task_id t \<noteq> k) (tasks s)
           \<and> undoStack s' = undoStack s @ [DELETE_TASK task i]"
    by simp
next
  assume "newId \<notin> task_id ` set (tasks s)"
  then show "\<exists>s'. addTask newId now s = Some s'
     \<and> (s' = s \<or> tasks s' \<noteq> tasks s \<and> (\<exists>a. undoStack s' = undoStack s @ [a]))"
    by (rule addTask_logs)
next
  show "\<exists>s'. toggleComplete now k s = Some s'
     \<and> (s' = s \<or> tasks s' \<noteq> tasks s \<and> (\<exists>a. undoStack s' = undoStack s @ [a]))"
    by (rule toggleComplete_logs)
next
  show "\<exists>s'. deleteTask k s = Some s'
     \<and> (s' = s \<or> tasks s' \<noteq> tasks s \<and> (\<exists>a. undoStack s' = undoStack s @ [a]))"
    by (rule deleteTask_logs)
next
  show "\<exists>s'. updateTaskTitle now k x s = Some s'
     \<and> (tasks s' = tasks s \<and> undoStack s' = undoStack s
          \<or> tasks s' \<noteq> tasks s \<and> (\<exists>a. undoStack s' = undoStack s @ [a]))"
    by (rule updateTaskTitle_logs)
next
  show "\<exists>s' us. exec c s = Some s' \<and> undoStack s' = undoStack s @ us \<and> length us \<le> 1"
    by (rule exec_never_pops)
next
  assume "task_id ` set newOrder \<subseteq> task_id ` set (tasks s)"
  then show "\<exists>s'. handleReorder nows newOrder s = Some s' \<and> undoStack s' = undoStack s"
    by (rule handleReorder_known)
next
  assume "undoStack s \<noteq> [] \<and> undoKnown s"
  then show "\<exists>s'. undo now s = Some s' \<and> undoStack s' = butlast (undoStack s)"
    using undo_returns by blast
qed

theorem validation_misses_witness:
  "addTask ''n'' 5 (mkState [mkTask ''a'' ''A'' False 0 1] [])
     = Some (mkState [mkTask ''a'' ''A'' False 0 1] [])
   \<and> toggleComplete 5 ''zz'' (mkState [mkTask ''a'' ''A'' False 0 1] [])
     = Some (mkState [mkTask ''a'' ''A'' False 0 1] [])
   \<and> deleteTask ''zz'' (mkState [mkTask ''a'' ''A'' False 0 1] [])
     = Some (mkState [mkTask ''a'' ''A'' False 0 1] [])
   \<and> updateTaskTitle 5 ''zz'' ''B'' (mkState [mkTask ''a'' ''A'' False 0 1] [])
     = Some (mkState [mkTask ''a'' ''A'' False 0 1] [])
   \<and> undo 5 (mkState [mkTask ''a'' ''A'' False 0 1] [])
     = Some (mkState [mkTask ''a'' ''A'' False 0 1] [])
   \<and> map_option undoStack
       (updateTaskTitle 5 ''a'' '' '' (mkState [mkTask ''a'' ''A'' False 0 1] []))
     = Some [DELETE_TASK (mkTask ''a'' ''A'' False 0 1) 0]
   \<and> map_option undoStack
       (addTask ''n'' 5 ((mkState [mkTask ''a'' ''A'' False 0 1] [])\<lparr>newTaskTitle := ''B''\<rparr>))
     = Some [ADD_TASK (mkTask ''n'' ''B'' False 1 5)]
   \<and> map_option undoStack
       (toggleComplete 5 ''a'' (mkState [mkTask ''a'' ''A'' False 0 1] []))
     = Some [TOGGLE_COMPLETE ''a'' False]
   \<and> map_option undoStack
       (deleteTask ''a'' (mkState [mkTask ''a'' ''A'' False 0 1] []))
     = Some [DELETE_TASK (mkTask ''a'' ''A'' False 0 1) 0]
   \<and> map_option undoStack
       (updateTaskTitle 5 ''a'' ''A'' (mkState [mkTask ''a'' ''A'' False 0 1] []))
     = Some []
   \<and> map_option undoStack
       (updateTaskTitle 5 ''a'' ''B'' (mkState [mkTask ''a'' ''A'' False 0 1] []))
     = Some [UPDATE_TASK ''a'' ''A'' ''B'']
   \<and> map_option undoStack
       (handleReorder (\<lambda>i. 6) [mkTask ''a'' ''A'' False 0 1]
          (mkState [mkTask ''a'' ''A'' False 0 1] []))
     = Some []
   \<and> map_option undoStack
       (undo 7 (mkState [mkTask ''a'' ''A'' True 0 1]
                  [ADD_TASK (mkTask ''a'' ''A'' False 0 1), TOGGLE_COMPLETE ''a'' False]))
     = Some [ADD_TASK (mkTask ''a'' ''A'' False 0 1)]"
proof -
  let ?t = "mkTask ''a'' ''A'' False 0 1"
  let ?s = "mkState [?t] []"
  let ?sB = "?s\<lparr>newTaskTitle := ''B''\<rparr>"
  let ?s2 = "mkState [mkTask ''a'' ''A'' True 0 1] [ADD_TASK ?t, TOGGLE_COMPLETE ''a'' False]"
  note defs = mkState_def mkTask_def trim_def isWhiteSpace_def
  note inst = validation_misses[where s = ?s and k = "''zz''" and now = 5 and x = "''B''"
      and newId = "''n''" and task = ?t and c = "DeleteCmd ''zz''" and nows = "\<lambda>i. 6"
      and newOrder = "[?t]"]
  have h1: "trim (newTaskTitle ?s) = []"
    by (simp add: defs)
  have h2: "find (\<lambda>t. task_id t = ''zz'') (tasks ?s) = None"
    by (simp add: defs)
  have h3: "undoStack ?s = []"
    by (simp add: defs)
  have c1: "addTask ''n'' 5 ?s = Some ?s"
    by (rule mp[OF inst[THEN conjunct1] h1])
  have c2: "toggleComplete 5 ''zz'' ?s = Some ?s \<and> deleteTask ''zz'' ?s = Some ?s
      \<and> updateTaskTitle 5 ''zz'' ''B'' ?s = Some ?s"
    by (rule mp[OF inst[THEN conjunct2, THEN conjunct1] h2])
  have c3: "undo 5 ?s = Some ?s"
    by (rule mp[OF inst[THEN conjunct2, THEN conjunct2, THEN conjunct1] h3])
  have h6: "task_id ` set [?t] \<subseteq> task_id ` set (tasks ?s)"
    by (simp add: defs)
  note tl3 = inst[THEN conjunct2, THEN conjunct2, THEN conjunct2]
  note tl9 = tl3[THEN conjunct2, THEN conjunct2, THEN conjunct2, THEN conjunct2,
      THEN conjunct2, THEN conjunct2]
  from mp[OF tl9[THEN conjunct1] h6] obtain r where
    r: "handleReorder (\<lambda>i. 6) [?t] ?s = Some r" and "undoStack r = undoStack ?s"
    by (elim exE conjE)
  then have c10: "map_option undoStack (handleReorder (\<lambda>i. 6) [?t] ?s) = Some []"
    by (simp add: mkState_def)
  note instA = validation_misses[where s = ?s and k = "''a''" and now = 5 and x = "'' ''"
      and newId = "''n''" and task = ?t and c = "DeleteCmd ''zz''" and nows = "\<lambda>i. 6"
      and newOrder = "[?t]"]
  note tlA = instA[THEN conjunct2, THEN conjunct2, THEN conjunct2]
  have h4: "find (\<lambda>t. task_id t = ''a'') (tasks ?s) = Some ?t \<and> trim '' '' = []"
    by (simp add: defs)
  from mp[OF tlA[THEN conjunct1] h4] obtain s' i where
    "updateTaskTitle 5 ''a'' '' '' ?s = Some s'"
    "undoStack s' = undoStack ?s @ [DELETE_TASK ?t i]"
    by (elim exE conjE)
  then have c4: "map_option undoStack (updateTaskTitle 5 ''a'' '' '' ?s) = Some [DELETE_TASK ?t 0]"
    by (auto simp add: updateTaskTitle_def deleteTask_def applyOp_def defs)
  from tlA[THEN conjunct2, THEN conjunct2, THEN conjunct1] obtain st where
    "toggleComplete 5 ''a'' ?s = Some st"
    by (elim exE conjE)
  then have c6: "map_option undoStack (toggleComplete 5 ''a'' ?s) = Some [TOGGLE_COMPLETE ''a'' False]"
    by (auto simp add: toggleComplete_def applyOp_def defs)
  from tlA[THEN conjunct2, THEN conjunct2, THEN conjunct2, THEN conjunct1] obtain sd where
    "deleteTask ''a'' ?s = Some sd"
    by (elim exE conjE)
  then have c7: "map_option undoStack (deleteTask ''a'' ?s) = Some [DELETE_TASK ?t 0]"
    by (auto simp add: deleteTask_def applyOp_def defs)
  have h5: "''n'' \<notin> task_id ` set (tasks ?sB)"
    by (simp add: defs)
  note instB = validation_misses[where s = ?sB and k = "''a''" and now = 5 and x = "''A''"
      and newId = "''n''" and task = ?t and c = "DeleteCmd ''zz''" and nows = "\<lambda>i. 6"
      and newOrder = "[?t]"]
  from mp[OF instB[THEN conjunct2, THEN conjunct2, THEN conjunct2, THEN conjunct2,
        THEN conjunct1] h5]
  obtain sa where "addTask ''n'' 5 ?sB = Some sa"
    by (elim exE conjE)
  then have c5: "map_option undoStack (addTask ''n'' 5 ?sB)
      = Some [ADD_TASK (mkTask ''n'' ''B'' False 1 5)]"
    by (auto simp add: addTask_def applyOp_def patchOfTask_def Let_def defs)
  note instS = validation_misses[where s = ?s and k = "''a''" and now = 5 and x = "''A''"
      and newId = "''n''" and task = ?t and c = "DeleteCmd ''zz''" and nows = "\<lambda>i. 6"
      and newOrder = "[?t]"]
  from instS[THEN conjunct2, THEN conjunct2, THEN conjunct2, THEN conjunct2, THEN conjunct2,
      THEN conjunct2, THEN conjunct2, THEN conjunct1]
  obtain sr where "updateTaskTitle 5 ''a'' ''A'' ?s = Some sr"
    by (elim exE conjE)
  then have c8: "map_option undoStack (updateTaskTitle 5 ''a'' ''A'' ?s) = Some []"
    by (auto simp add: updateTaskTitle_def applyOp_def defs)
  note instC = validation_misses[where s = ?s and k = "''a''" and now = 5 and x = "''B''"
      and newId = "''n''" and task = ?t and c = "DeleteCmd ''zz''" and nows = "\<lambda>i. 6"
      and newOrder = "[?t]"]
  from instC[THEN conjunct2, THEN conjunct2, THEN conjunct2, THEN conjunct2, THEN conjunct2,
      THEN conjunct2, THEN conjunct2, THEN conjunct1]
  obtain sq where "updateTaskTitle 5 ''a'' ''B'' ?s = Some sq"
    by (elim exE conjE)
  then have c9: "map_option undoStack (updateTaskTitle 5 ''a'' ''B'' ?s)
      = Some [UPDATE_TASK ''a'' ''A'' ''B'']"
    by (auto simp add: updateTaskTitle_def applyOp_def applyPatch_def noPatch_def defs)
  have h7: "undoStack ?s2 \<noteq> [] \<and> undoKnown ?s2"
    by (simp add: undoKnown_def defs)
  note instU = validation_misses[where s = ?s2 and k = "''zz''" and now = 7 and x = "''B''"
      and newId = "''n''" and task = ?t and c = "DeleteCmd ''zz''" and nows = "\<lambda>i. 6"
      and newOrder = "[?t]"]
  from mp[OF instU[THEN conjunct2, THEN conjunct2, THEN conjunct2, THEN conjunct2,
        THEN conjunct2, THEN conjunct2, THEN conjunct2, THEN conjunct2, THEN conjunct2,
        THEN conjunct2] h7]
  obtain u where u: "undo 7 ?s2 = Some u" and "undoStack u = butlast (undoStack ?s2)"
    by (elim exE conjE)
  then have c11: "map_option undoStack (undo 7 ?s2) = Some [ADD_TASK ?t]"
    by (simp add: mkState_def)
  from c1 c2 c3 c4 c5 c6 c7 c8 c9 c10 c11 show ?thesis by simp
qed

text \<open>
  A text of two blanks for the only task deletes it and pushes a second entry; and
  reordering two tasks changes their sort keys while the stack stays as it was.
\<close>

theorem rename_blank_counterexample:
  "trim ''  '' = []
   \<and> run [Add ''a'' 1 ''A''] initState
     = Some (mkState [mkTask ''a'' ''A'' False 0 1] [ADD_TASK (mkTask ''a'' ''A'' False 0 1)])
   \<and> run [Add ''a'' 1 ''A'', Rename 2 ''a'' ''  ''] initState
     = Some (mkState [] [ADD_TASK (mkTask ''a'' ''A'' False 0 1),
                        DELETE_TASK (mkTask ''a'' ''A'' False 0 1) 0])
   \<and> run [Add ''a'' 1 ''A'', Add ''b'' 2 ''B''] initState
     = Some (mkState [mkTask ''a'' ''A'' False 0 1, mkTask ''b'' ''B'' False 1 2]
               [ADD_TASK (mkTask ''a'' ''A'' False 0 1), ADD_TASK (mkTask ''b'' ''B'' False 1 2)])
   \<and> map_option (map sortOrder \<circ> tasks)
       (handleReorder int [mkTask ''b'' ''B'' False 1 2, mkTask ''a'' ''A'' False 0 1]
          (mkState [mkTask ''a'' ''A'' False 0 1, mkTask ''b'' ''B'' False 1 2]
             [ADD_TASK (mkTask ''a'' ''A'' False 0 1), ADD_TASK (mkTask ''b'' ''B'' False 1 2)]))
     = Some [1, 0]
   \<and> map_option undoStack
       (handleReorder int [mkTask ''b'' ''B'' False 1 2, mkTask ''a'' ''A'' False 0 1]
          (mkState [mkTask ''a'' ''A'' False 0 1, mkTask ''b'' ''B'' False 1 2]
             [ADD_TASK (mkTask ''a'' ''A'' False 0 1), ADD_TASK (mkTask ''b'' ''B'' False 1 2)]))
     = Some [ADD_TASK (mkTask ''a'' ''A'' False 0 1), ADD_TASK (mkTask ''b'' ''B'' False 1 2)]"
  by (simp add: initState_def addTask_def updateTaskTitle_def deleteTask_def applyOp_def
      patchOfTask_def trim_def isWhiteSpace_def Let_def mkState_def mkTask_def
      handleReorder_def applyPatch_def noPatch_def enumerate_eq_zip)

section \<open>Reordering\<close>

lemma task_id_stampOrder [simp]: "task_id (stampOrder now n new t) = task_id t"
  by (simp add: stampOrder_def split: option.splits)

lemma isCompleted_stampOrder [simp]: "isCompleted (stampOrder now n new t) = isCompleted t"
  by (simp add: stampOrder_def split: option.splits)

lemma findIndex_None_iff: "findIndex P xs = None \<longleftrightarrow> (\<forall>x\<in>set xs. \<not> P x)"
  by (induction xs) auto

lemma stampOrder_other: "task_id t \<notin> task_id ` set new \<Longrightarrow> stampOrder now n new t = t"
proof -
  assume "task_id t \<notin> task_id ` set new"
  then have "findIndex (\<lambda>a. task_id a = task_id t) new = None"
    unfolding findIndex_None_iff by (metis imageI)
  then show ?thesis by (simp add: stampOrder_def)
qed

lemma stampOrder_Cons:
  assumes "task_id a \<notin> task_id ` set rest"
  shows "stampOrder now (Suc n) rest
           (if task_id t = task_id a then t\<lparr>sortOrder := int n, updatedAt := Some (now n)\<rparr> else t)
         = stampOrder now n (a # rest) t"
proof (cases "task_id t = task_id a")
  case True
  from assms have "findIndex (\<lambda>b. task_id b = task_id a) rest = None"
    unfolding findIndex_None_iff by (metis imageI)
  with True show ?thesis by (simp add: stampOrder_def)
next
  case False
  then show ?thesis by (auto simp: stampOrder_def split: option.splits)
qed

lemma transact_reorder:
  "distinct (map task_id new) \<Longrightarrow> task_id ` set new \<subseteq> task_id ` set ts \<Longrightarrow>
   transact
     (map (\<lambda>(index, task). Update (task_id task)
             (noPatch\<lparr>p_sortOrder := Some (int index), p_updatedAt := Some (now index)\<rparr>))
          (enumerate n new)) ts
   = Some (map (stampOrder now n new) ts)"
proof (induction new arbitrary: n ts)
  case Nil
  have "map (stampOrder now n []) ts = ts"
    by (rule map_idI) (simp add: stampOrder_def)
  then show ?case by simp
next
  case (Cons a rest)
  define g :: "Task \<Rightarrow> Task" where "g = (\<lambda>t. if task_id t = task_id a
              then t\<lparr>sortOrder := int n, updatedAt := Some (now n)\<rparr> else t)"
  from Cons.prems have a_in: "task_id a \<in> task_id ` set ts" and a_new: "task_id a \<notin> task_id ` set rest"
    and d: "distinct (map task_id rest)" and sub: "task_id ` set rest \<subseteq> task_id ` set ts"
    by auto
  have first: "applyOp (Update (task_id a)
       (noPatch\<lparr>p_sortOrder := Some (int n), p_updatedAt := Some (now n)\<rparr>)) ts = Some (map g ts)"
    by (simp add: applyOp_Update_known[OF a_in] applyPatch_sortOrder g_def)
  have "task_id (g t) = task_id t" for t
    by (simp add: g_def)
  then have ids: "task_id ` set (map g ts) = task_id ` set ts"
    by (simp add: image_image)
  from sub ids have sub': "task_id ` set rest \<subseteq> task_id ` set (map g ts)"
    by simp
  have "stampOrder now (Suc n) rest (g t) = stampOrder now n (a # rest) t" for t
    using stampOrder_Cons[OF a_new, of now n t] by (simp add: g_def)
  then have "map (stampOrder now (Suc n) rest) (map g ts) = map (stampOrder now n (a # rest)) ts"
    by simp
  with Cons.IH[OF d sub', of "Suc n"] first show ?case
    by simp
qed


text \<open>
  A list whose elements carry a key and a position, sorted by position, whose keys are a
  permutation of the distinct keys \<open>ks\<close>, and where each element's position is the place
  of its key in \<open>ks\<close>: it lists the keys in the order of \<open>ks\<close>, at positions
  \<open>0, ..., n - 1\<close>.
\<close>

lemma positions_unique:
  fixes ks :: "'k list" and xs :: "'b list" and key :: "'b \<Rightarrow> 'k" and pos :: "'b \<Rightarrow> int"
  assumes dk: "distinct ks"
    and perm: "mset (map key xs) = mset ks"
    and srt: "sorted (map pos xs)"
    and place: "\<And>x. x \<in> set xs \<Longrightarrow> \<exists>i<length ks. ks ! i = key x \<and> pos x = int i"
  shows "map pos xs = map int [0..<length ks] \<and> map key xs = ks"
proof -
  have len: "length xs = length ks"
    using perm by (metis length_map size_mset)
  have dkey: "distinct (map key xs)"
    using perm dk by (metis distinct_count_atmost_1 set_mset_mset)
  have inj: "inj_on pos (set xs)"
  proof (rule inj_onI)
    fix x y
    assume x: "x \<in> set xs" and y: "y \<in> set xs" and e: "pos x = pos y"
    from place[OF x] obtain i where i: "ks ! i = key x" "pos x = int i" by blast
    from place[OF y] obtain j where j: "ks ! j = key y" "pos y = int j" by blast
    from e i j have "key x = key y" by simp
    with dkey x y show "x = y"
      by (simp add: distinct_map inj_on_def)
  qed
  have dpos: "distinct (map pos xs)"
    using dkey inj by (simp add: distinct_map)
  have sub: "set (map pos xs) \<subseteq> set (map int [0..<length ks])"
  proof
    fix v
    assume "v \<in> set (map pos xs)"
    then obtain x where x: "x \<in> set xs" "v = pos x" by auto
    from place[OF x(1)] obtain i where "i < length ks" "pos x = int i" by blast
    with x show "v \<in> set (map int [0..<length ks])" by simp
  qed
  have "card (set (map pos xs)) = length ks"
    using dpos len by (metis distinct_card length_map)
  moreover have "card (set (map int [0..<length ks])) = length ks"
    by (simp add: card_image)
  ultimately have "set (map pos xs) = set (map int [0..<length ks])"
    using sub by (metis List.finite_set card_subset_eq)
  moreover have "sorted (map int [0..<length ks])" "distinct (map int [0..<length ks])"
    by (simp_all add: sorted_map distinct_map sorted_wrt_iff_nth_less) 
  ultimately have p: "map pos xs = map int [0..<length ks]"
    using srt dpos by (intro sorted_distinct_set_unique)
  have "map key xs = ks"
  proof (rule nth_equalityI)
    show "length (map key xs) = length ks" using len by simp
  next
    fix j
    assume "j < length (map key xs)"
    then have j: "j < length xs" by simp
    then have "xs ! j \<in> set xs" by simp
    from place[OF this] obtain i where i: "ks ! i = key (xs ! j)" "pos (xs ! j) = int i"
      by blast
    from p j len have "pos (xs ! j) = int j"
      by (metis length_map nth_map nth_upt add_0)
    with i have "i = j" by simp
    with i j show "map key xs ! j = ks ! j" by simp
  qed
  with p show ?thesis by simp
qed

lemma findIndex_place:
  "k \<in> key ` set xs \<Longrightarrow>
   \<exists>i<length xs. findIndex (\<lambda>a. key a = k) xs = Some i \<and> key (xs ! i) = k"
proof -
  assume "k \<in> key ` set xs"
  then have "find (\<lambda>a. key a = k) xs \<noteq> None"
    by (auto simp: find_None_iff)
  then obtain a where a: "find (\<lambda>a. key a = k) xs = Some a"
    by blast
  from find_findIndex[OF a] obtain i where
    i: "findIndex (\<lambda>a. key a = k) xs = Some i" "i < length xs" "xs ! i = a"
    by blast
  moreover from a have "key a = k"
    by (auto simp: find_Some_iff)
  ultimately show ?thesis by blast
qed

lemma handleReorder_view:
  assumes d: "distinct (map task_id (tasks s))"
    and perm: "mset (map task_id newOrder) = mset (map task_id (activeTasks (tasks s)))"
  shows "handleReorder now newOrder s = Some (s\<lparr>tasks := map (stampOrder now 0 newOrder) (tasks s)\<rparr>)"
    and "map sortOrder (activeTasks (map (stampOrder now 0 newOrder) (tasks s)))
          = map int [0..<length newOrder]"
    and "map task_id (activeTasks (map (stampOrder now 0 newOrder) (tasks s)))
          = map task_id newOrder"
    and "filter isCompleted (map (stampOrder now 0 newOrder) (tasks s))
          = filter isCompleted (tasks s)"
proof -
  let ?ts = "tasks s"
  let ?A = "filter (\<lambda>t. \<not> isCompleted t) ?ts"
  let ?st = "stampOrder now 0 newOrder"
  have permA: "mset (map task_id newOrder) = mset (map task_id ?A)"
    using perm by (simp add: activeTasks_def)
  have dA: "distinct (map task_id ?A)"
    using d by (rule distinct_map_filter)
  have dnew: "distinct (map task_id newOrder)"
    using permA dA by (metis distinct_count_atmost_1 set_mset_mset)
  have setnew: "task_id ` set newOrder = task_id ` set ?A"
    using permA by (metis list.set_map mset_eq_setD)
  then have sub: "task_id ` set newOrder \<subseteq> task_id ` set ?ts"
    by auto
  show "handleReorder now newOrder s = Some (s\<lparr>tasks := map ?st ?ts\<rparr>)"
    by (simp add: handleReorder_def transact_reorder[OF dnew sub])
  have fmap: "filter (\<lambda>t. \<not> isCompleted t) (map ?st ?ts) = map ?st ?A"
    by (simp add: filter_map o_def)
  let ?A' = "activeTasks (map ?st ?ts)"
  have A': "?A' = sort_key sortOrder (map ?st ?A)"
    by (simp add: activeTasks_def fmap)
  have "mset ?A' = mset (map ?st ?A)"
    unfolding A' by simp
  then have "mset (map task_id ?A') = mset (map task_id (map ?st ?A))"
    by (simp only: mset_map)
  also have "map task_id (map ?st ?A) = map task_id ?A"
    by simp
  finally have p: "mset (map task_id ?A') = mset (map task_id newOrder)"
    using permA by simp
  have srt: "sorted (map sortOrder ?A')"
    unfolding A' by simp
  have place: "\<exists>i<length (map task_id newOrder).
      map task_id newOrder ! i = task_id x \<and> sortOrder x = int i" if "x \<in> set ?A'" for x
  proof -
    from that obtain t where t: "t \<in> set ?A" "x = ?st t"
      unfolding A' by auto
    then have "task_id t \<in> task_id ` set newOrder"
      using setnew by blast
    from findIndex_place[OF this] obtain i where
      i: "i < length newOrder" "findIndex (\<lambda>a. task_id a = task_id t) newOrder = Some i"
         "task_id (newOrder ! i) = task_id t"
      by blast
    then have "sortOrder (?st t) = int i"
      by (simp add: stampOrder_def)
    with i t show ?thesis by auto
  qed
  from positions_unique[OF dnew p srt place]
  show "map sortOrder ?A' = map int [0..<length newOrder]"
    and "map task_id ?A' = map task_id newOrder"
    by simp_all
  have "stampOrder now 0 newOrder t = t" if "t \<in> set ?ts" "isCompleted t" for t
  proof (rule stampOrder_other)
    show "task_id t \<notin> task_id ` set newOrder"
    proof
      assume "task_id t \<in> task_id ` set newOrder"
      then obtain a where a: "a \<in> set ?A" "task_id a = task_id t"
        unfolding setnew by auto
      then have "a \<in> set ?ts" "\<not> isCompleted a" by simp_all
      with that a d have "a = t"
        by (metis distinct_map inj_on_def)
      with \<open>\<not> isCompleted a\<close> that show False by simp
    qed
  qed
  then have "map ?st (filter isCompleted ?ts) = filter isCompleted ?ts"
    by (intro map_idI) simp
  then show "filter isCompleted (map ?st ?ts) = filter isCompleted ?ts"
    by (simp add: filter_map o_def)
qed

text \<open>
  C7: the collection has distinct ids (as the store guarantees) and \<open>newOrder\<close> names
  each active task once, in any order. Then \<open>handleReorder\<close> returns; the active view of
  the new collection lists the tasks in the order of \<open>newOrder\<close>, with the sort keys
  \<open>0, 1, ..., n - 1\<close>; the completed tasks are as they were; and the undo stack is as it
  was.
\<close>

theorem handleReorder_positions:
  assumes "distinct (map task_id (tasks s))"
    and "mset (map task_id newOrder) = mset (map task_id (activeTasks (tasks s)))"
  shows "\<exists>s'. handleReorder now newOrder s = Some s'
           \<and> undoStack s' = undoStack s
           \<and> map task_id (activeTasks (tasks s')) = map task_id newOrder
           \<and> map sortOrder (activeTasks (tasks s')) = map int [0..<length newOrder]
           \<and> filter isCompleted (tasks s') = filter isCompleted (tasks s)"
  using handleReorder_view[OF assms, of now] by simp

theorem handleReorder_positions_witness:
  "map_option (map (\<lambda>t. (task_id t, sortOrder t)) \<circ> activeTasks \<circ> tasks)
     (handleReorder (\<lambda>i. 9)
        [mkTask ''c'' ''C'' False 2 3, mkTask ''a'' ''A'' False 0 1, mkTask ''b'' ''B'' False 1 2]
        (mkState [mkTask ''a'' ''A'' False 0 1, mkTask ''b'' ''B'' False 1 2,
                  mkTask ''c'' ''C'' False 2 3] []))
   = Some [(''c'', 0), (''a'', 1), (''b'', 2)]"
proof -
  let ?s = "mkState [mkTask ''a'' ''A'' False 0 1, mkTask ''b'' ''B'' False 1 2,
                  mkTask ''c'' ''C'' False 2 3] []"
  let ?new = "[mkTask ''c'' ''C'' False 2 3, mkTask ''a'' ''A'' False 0 1,
               mkTask ''b'' ''B'' False 1 2]"
  have h1: "distinct (map task_id (tasks ?s))"
    by (simp add: mkState_def mkTask_def)
  have h2: "mset (map task_id ?new) = mset (map task_id (activeTasks (tasks ?s)))"
    by (simp add: mkState_def mkTask_def activeTasks_def)
  from handleReorder_positions[OF h1 h2, of "\<lambda>i. 9"] obtain s' where
    s': "handleReorder (\<lambda>i. 9) ?new ?s = Some s'"
    and ids: "map task_id (activeTasks (tasks s')) = map task_id ?new"
    and keys: "map sortOrder (activeTasks (tasks s')) = map int [0..<length ?new]"
    by blast
  have "map (\<lambda>t. (task_id t, sortOrder t)) (activeTasks (tasks s'))
      = zip (map task_id (activeTasks (tasks s'))) (map sortOrder (activeTasks (tasks s')))"
    by (simp add: zip_map_map map_zip_map zip_same_conv_map)
  also have "\<dots> = [(''c'', 0), (''a'', 1), (''b'', 2)]"
    unfolding ids keys by (simp add: mkTask_def upt_rec)
  finally show ?thesis
    using s' by simp
qed

section \<open>Contiguous sort keys\<close>

lemma activeTasks_delete:
  "activeTasks (filter (\<lambda>t. task_id t \<noteq> k) ts) = filter (\<lambda>t. task_id t \<noteq> k) (activeTasks ts)"
proof -
  have "filter (\<lambda>t. \<not> isCompleted t) (filter (\<lambda>t. task_id t \<noteq> k) ts)
      = filter (\<lambda>t. task_id t \<noteq> k) (filter (\<lambda>t. \<not> isCompleted t) ts)"
    by (simp add: conj_commute)
  then show ?thesis
    by (simp only: activeTasks_def filter_sort)
qed

lemma distinct_ids_activeTasks:
  "distinct (map task_id ts) \<Longrightarrow> distinct (map task_id (activeTasks ts))"
proof -
  assume "distinct (map task_id ts)"
  then have "distinct (map task_id (filter (\<lambda>t. \<not> isCompleted t) ts))"
    by (rule distinct_map_filter)
  moreover have "mset (map task_id (activeTasks ts))
      = mset (map task_id (filter (\<lambda>t. \<not> isCompleted t) ts))"
    by (simp add: activeTasks_def)
  ultimately show ?thesis
    by (metis mset_eq_imp_distinct_iff)
qed

lemma same_id_same_task:
  "distinct (map task_id ts) \<Longrightarrow> a \<in> set ts \<Longrightarrow> b \<in> set ts \<Longrightarrow> task_id a = task_id b \<Longrightarrow> a = b"
  by (simp add: distinct_map inj_on_def)

lemma sorted_int_upt: "sorted (map int [0..<n])"
  by (induction n) (auto simp: sorted_append)

lemma distinct_int_upt: "distinct (map int [0..<n])"
  by (simp add: distinct_map inj_on_def)

lemma butlast_int_upt: "butlast (map int [0..<n]) = map int [0..<n - 1]"
  by (cases n) (simp_all add: map_butlast[symmetric])

lemma contiguous_handleReorder:
  assumes "distinct (map task_id (tasks s))"
    and "mset (map task_id newOrder) = mset (map task_id (activeTasks (tasks s)))"
  shows "\<exists>s'. handleReorder now newOrder s = Some s' \<and> contiguous (tasks s')"
proof -
  let ?ts' = "map (stampOrder now 0 newOrder) (tasks s)"
  have "length (map task_id (activeTasks ?ts')) = length (map task_id newOrder)"
    using handleReorder_view(3)[OF assms, of now] by simp
  then have "length (activeTasks ?ts') = length newOrder"
    by simp
  then have "contiguous ?ts'"
    using handleReorder_view(2)[OF assms, of now] by (simp add: contiguous_def)
  then show ?thesis
    using handleReorder_view(1)[OF assms, of now] by simp
qed

lemma contiguous_addTask:
  assumes c: "contiguous (tasks s)" and nc: "filter isCompleted (tasks s) = []"
    and nb: "trim (newTaskTitle s) \<noteq> []" and fresh: "newId \<notin> task_id ` set (tasks s)"
  shows "\<exists>s'. addTask newId now s = Some s' \<and> contiguous (tasks s')"
proof -
  define newTask :: Task where "newTask = \<lparr>task_id = newId, title = newTaskTitle s,
     isCompleted = False, sortOrder = int (length (tasks s)), createdAt = Some now,
     updatedAt = Some now, userId = None\<rparr>"
  let ?A = "activeTasks (tasks s)"
  let ?F = "filter (\<lambda>t. \<not> isCompleted t) (tasks s)"
  have allactive: "?F = tasks s"
    using nc by (simp add: filter_empty_conv)
  have lenA: "length ?A = length (tasks s)"
    using allactive by (simp add: activeTasks_def)
  have keysA: "map sortOrder ?A = map int [0..<length (tasks s)]"
    using c lenA by (simp add: contiguous_def)
  have keys: "map sortOrder (?A @ [newTask]) = map int [0..<Suc (length (tasks s))]"
    using keysA by (simp add: newTask_def)
  have "sorted (map int [0..<Suc (length (tasks s))])"
       "distinct (map int [0..<Suc (length (tasks s))])"
    by (rule sorted_int_upt, rule distinct_int_upt)
  then have srt: "sorted (map sortOrder (?A @ [newTask]))"
    and dst: "distinct (map sortOrder (?A @ [newTask]))"
    by (simp_all only: keys)
  have m: "mset (?F @ [newTask]) = mset (?A @ [newTask])"
    by (simp add: activeTasks_def)
  then have "set (?F @ [newTask]) = set (?A @ [newTask])"
    by (rule mset_eq_setD)
  with dst have inj: "inj_on sortOrder (set (?F @ [newTask]))"
    by (simp only: distinct_map)
  have "sort_key sortOrder (?F @ [newTask]) = ?A @ [newTask]"
    using m inj srt by (rule sort_key_inj_key_eq)
  then have "activeTasks (tasks s @ [newTask]) = ?A @ [newTask]"
    by (simp add: activeTasks_def newTask_def)
  then have "contiguous (tasks s @ [newTask])"
    using keys lenA by (simp add: contiguous_def)
  then show ?thesis
    unfolding addTask_fresh[OF nb fresh] Let_def newTask_def[symmetric] by simp
qed

lemma contiguous_deleteTask:
  assumes c: "contiguous (tasks s)" and d: "distinct (map task_id (tasks s))"
    and f: "find (\<lambda>t. task_id t = k) (tasks s) = Some task"
    and w: "isCompleted task \<or> activeTasks (tasks s) \<noteq> [] \<and> last (activeTasks (tasks s)) = task"
  shows "\<exists>s'. deleteTask k s = Some s' \<and> contiguous (tasks s')"
proof -
  let ?A = "activeTasks (tasks s)"
  let ?ts' = "filter (\<lambda>t. task_id t \<noteq> k) (tasks s)"
  from find_task_id[OF f] have tin: "task \<in> set (tasks s)" and tk: "task_id task = k"
    by simp_all
  have setA: "set ?A \<subseteq> set (tasks s)"
    by (auto simp: activeTasks_def)
  have keysA: "map sortOrder ?A = map int [0..<length ?A]"
    using c by (simp add: contiguous_def)
  have "contiguous ?ts'"
  proof (cases "isCompleted task")
    case True
    have "task_id a \<noteq> k" if "a \<in> set ?A" for a
    proof
      assume "task_id a = k"
      with that setA tin tk d have "a = task"
        by (metis same_id_same_task subsetD)
      with that True show False by (simp add: activeTasks_def)
    qed
    then have "filter (\<lambda>t. task_id t \<noteq> k) ?A = ?A"
      by (simp add: filter_id_conv)
    then show ?thesis
      using c by (simp add: contiguous_def activeTasks_delete)
  next
    case False
    with w have ne: "?A \<noteq> []" and l: "last ?A = task"
      by simp_all
    then have split: "?A = butlast ?A @ [task]"
      by (metis append_butlast_last_id)
    have dA: "distinct (map task_id ?A)"
      using d by (rule distinct_ids_activeTasks)
    have "task_id a \<noteq> k" if "a \<in> set (butlast ?A)" for a
    proof -
      have "distinct (map task_id (butlast ?A) @ [k])"
        using dA split tk by (metis list.simps(8,9) map_append)
      with that show ?thesis by auto
    qed
    then have "filter (\<lambda>t. task_id t \<noteq> k) (butlast ?A) = butlast ?A"
      by (simp add: filter_id_conv)
    then have "filter (\<lambda>t. task_id t \<noteq> k) (butlast ?A @ [task]) = butlast ?A"
      using tk by simp
    then have fl: "filter (\<lambda>t. task_id t \<noteq> k) ?A = butlast ?A"
      using split by simp
    have "map sortOrder (butlast ?A) = butlast (map int [0..<length ?A])"
      using keysA by (simp add: map_butlast)
    also have "\<dots> = map int [0..<length (butlast ?A)]"
      by (simp only: butlast_int_upt length_butlast)
    finally show ?thesis
      by (simp add: contiguous_def activeTasks_delete fl)
  qed
  moreover from find_findIndex[OF f] obtain i where
    "findIndex (\<lambda>t. task_id t = k) (tasks s) = Some i"
    by blast
  ultimately show ?thesis
    by (simp add: deleteTask_known)
qed

text \<open>
  C4, as the code has it. After \<open>handleReorder\<close> with an order that names each active
  task once (ids distinct), the sort keys of the active view are \<open>0, ..., n - 1\<close> in the
  order of the view. \<open>addTask\<close> and \<open>deleteTask\<close> do not renumber: \<open>addTask\<close> keeps the
  keys contiguous when they were and no task is completed (the new key is the length of
  the whole collection), and \<open>deleteTask\<close> keeps them contiguous when they were and the
  deleted task is completed or the last of the active view (the keys of the other tasks
  stay as they are).
\<close>

theorem contiguous_settles:
  "(distinct (map task_id (tasks s))
      \<and> mset (map task_id newOrder) = mset (map task_id (activeTasks (tasks s)))
     \<longrightarrow> (\<exists>s'. handleReorder nows newOrder s = Some s' \<and> contiguous (tasks s')))
   \<and> (contiguous (tasks s) \<and> filter isCompleted (tasks s) = []
      \<and> trim (newTaskTitle s) \<noteq> [] \<and> newId \<notin> task_id ` set (tasks s)
     \<longrightarrow> (\<exists>s'. addTask newId now s = Some s' \<and> contiguous (tasks s')))
   \<and> (contiguous (tasks s) \<and> distinct (map task_id (tasks s))
      \<and> find (\<lambda>t. task_id t = k) (tasks s) = Some task
      \<and> (isCompleted task
          \<or> activeTasks (tasks s) \<noteq> [] \<and> last (activeTasks (tasks s)) = task)
     \<longrightarrow> (\<exists>s'. deleteTask k s = Some s' \<and> contiguous (tasks s')))"
proof (intro conjI impI)
  assume "distinct (map task_id (tasks s))
      \<and> mset (map task_id newOrder) = mset (map task_id (activeTasks (tasks s)))"
  then show "\<exists>s'. handleReorder nows newOrder s = Some s' \<and> contiguous (tasks s')"
    using contiguous_handleReorder by blast
next
  assume "contiguous (tasks s) \<and> filter isCompleted (tasks s) = []
      \<and> trim (newTaskTitle s) \<noteq> [] \<and> newId \<notin> task_id ` set (tasks s)"
  then show "\<exists>s'. addTask newId now s = Some s' \<and> contiguous (tasks s')"
    using contiguous_addTask by blast
next
  assume "contiguous (tasks s) \<and> distinct (map task_id (tasks s))
      \<and> find (\<lambda>t. task_id t = k) (tasks s) = Some task
      \<and> (isCompleted task
          \<or> activeTasks (tasks s) \<noteq> [] \<and> last (activeTasks (tasks s)) = task)"
  then show "\<exists>s'. deleteTask k s = Some s' \<and> contiguous (tasks s')"
    using contiguous_deleteTask[of s k task] by blast
qed

theorem contiguous_settles_witness:
  "map_option (contiguous \<circ> tasks)
     (handleReorder (\<lambda>i. 9) [mkTask ''b'' ''B'' False 1 2, mkTask ''a'' ''A'' False 0 1]
        (mkState [mkTask ''a'' ''A'' False 0 1, mkTask ''b'' ''B'' False 1 2] [])) = Some True
   \<and> map_option (contiguous \<circ> tasks)
     (addTask ''c'' 9
        ((mkState [mkTask ''a'' ''A'' False 0 1, mkTask ''b'' ''B'' False 1 2] [])
           \<lparr>newTaskTitle := ''C''\<rparr>)) = Some True
   \<and> map_option (contiguous \<circ> tasks)
     (deleteTask ''b''
        (mkState [mkTask ''a'' ''A'' False 0 1, mkTask ''b'' ''B'' False 1 2] [])) = Some True"
proof -
  let ?a = "mkTask ''a'' ''A'' False 0 1"
  let ?b = "mkTask ''b'' ''B'' False 1 2"
  let ?s = "mkState [?a, ?b] []"
  let ?sc = "?s\<lparr>newTaskTitle := ''C''\<rparr>"
  have act: "activeTasks (tasks ?s) = [?a, ?b]" "activeTasks (tasks ?sc) = [?a, ?b]"
    by (simp_all add: mkState_def mkTask_def activeTasks_def)
  have h1: "distinct (map task_id (tasks ?s))
      \<and> mset (map task_id [?b, ?a]) = mset (map task_id (activeTasks (tasks ?s)))"
    unfolding act by (simp add: mkState_def mkTask_def)
  have h2: "contiguous (tasks ?sc) \<and> filter isCompleted (tasks ?sc) = []
      \<and> trim (newTaskTitle ?sc) \<noteq> [] \<and> ''c'' \<notin> task_id ` set (tasks ?sc)"
    unfolding contiguous_def act
    by (simp add: mkState_def mkTask_def trim_def isWhiteSpace_def)
  have h3: "contiguous (tasks ?s) \<and> distinct (map task_id (tasks ?s))
      \<and> find (\<lambda>t. task_id t = ''b'') (tasks ?s) = Some ?b
      \<and> (isCompleted ?b \<or> activeTasks (tasks ?s) \<noteq> [] \<and> last (activeTasks (tasks ?s)) = ?b)"
    unfolding contiguous_def act by (simp add: mkState_def mkTask_def)
  from contiguous_settles[where s = ?s and newOrder = "[?b, ?a]" and nows = "\<lambda>i. 9"] h1
  have c1: "\<exists>s'. handleReorder (\<lambda>i. 9) [?b, ?a] ?s = Some s' \<and> contiguous (tasks s')"
    by blast
  from contiguous_settles[where s = ?sc and newId = "''c''" and now = 9] h2
  have c2: "\<exists>s'. addTask ''c'' 9 ?sc = Some s' \<and> contiguous (tasks s')"
    by blast
  from contiguous_settles[where s = ?s and k = "''b''" and task = ?b] h3
  have c3: "\<exists>s'. deleteTask ''b'' ?s = Some s' \<and> contiguous (tasks s')"
    by blast
  from c1 c2 c3 show ?thesis by auto
qed

theorem delete_contiguous_counterexample:
  "map_option (map sortOrder \<circ> activeTasks \<circ> tasks)
     (run [Add ''a'' 1 ''A'', Add ''b'' 2 ''B'', DeleteCmd ''a''] initState) = Some [1]
   \<and> map_option (contiguous \<circ> tasks)
     (run [Add ''a'' 1 ''A'', Add ''b'' 2 ''B'', DeleteCmd ''a''] initState) = Some False"
  by (simp add: initState_def addTask_def deleteTask_def applyOp_def
      patchOfTask_def trim_def isWhiteSpace_def Let_def activeTasks_def contiguous_def)

section \<open>Undo after each logged operation\<close>

lemma found_is_only:
  assumes "distinct (map task_id ts)" and "find (\<lambda>t. task_id t = k) ts = Some task"
    and "t \<in> set ts" and "task_id t = k"
  shows "t = task"
  using assms find_task_id[OF assms(2)] same_id_same_task[of ts t task] by simp

lemma addTask_undo:
  assumes nb: "trim (newTaskTitle s) \<noteq> []" and fresh: "newId \<notin> task_id ` set (tasks s)"
  shows "\<exists>s1. addTask newId now s = Some s1 \<and> undo now' s1 = Some (s\<lparr>newTaskTitle := []\<rparr>)"
proof -
  define newTask :: Task where "newTask = \<lparr>task_id = newId, title = newTaskTitle s,
     isCompleted = False, sortOrder = int (length (tasks s)), createdAt = Some now,
     updatedAt = Some now, userId = None\<rparr>"
  define s1 where "s1 = s\<lparr>tasks := tasks s @ [newTask],
     undoStack := undoStack s @ [ADD_TASK newTask], newTaskTitle := []\<rparr>"
  have a: "addTask newId now s = Some s1"
    unfolding addTask_fresh[OF nb fresh] Let_def newTask_def[symmetric] s1_def by simp
  have "filter (\<lambda>t. task_id t \<noteq> newId) (tasks s) = tasks s"
    using fresh by (auto simp: filter_id_conv)
  then have "filter (\<lambda>t. task_id t \<noteq> task_id newTask) (tasks s1) = tasks s"
    by (simp add: s1_def newTask_def)
  moreover have "undoStack s1 = undoStack s @ [ADD_TASK newTask]"
    by (simp add: s1_def)
  ultimately have "undo now' s1 = Some (s\<lparr>newTaskTitle := []\<rparr>)"
    using undo_ADD[of s1 "undoStack s" newTask now'] by (simp add: s1_def)
  with a show ?thesis by blast
qed

lemma toggleComplete_undo:
  assumes d: "distinct (map task_id (tasks s))"
    and f: "find (\<lambda>t. task_id t = k) (tasks s) = Some task"
  shows "\<exists>s1. toggleComplete now k s = Some s1
     \<and> undo now' s1 = Some (s\<lparr>tasks := map (\<lambda>t. if task_id t = k
                              then t\<lparr>updatedAt := Some now'\<rparr> else t) (tasks s)\<rparr>)"
proof -
  define g1 :: "Task \<Rightarrow> Task" where "g1 = (\<lambda>t. if task_id t = k
     then t\<lparr>isCompleted := \<not> isCompleted task, updatedAt := Some now\<rparr> else t)"
  define s1 where "s1 = s\<lparr>tasks := map g1 (tasks s),
     undoStack := undoStack s @ [TOGGLE_COMPLETE k (isCompleted task)]\<rparr>"
  have a: "toggleComplete now k s = Some s1"
    unfolding toggleComplete_known[OF f] s1_def g1_def by simp
  have idg: "task_id (g1 t) = task_id t" for t
    by (simp add: g1_def)
  have "task_id ` set (map g1 (tasks s)) = task_id ` set (tasks s)"
    by (simp add: image_image idg)
  then have known: "k \<in> task_id ` set (tasks s1)"
    using find_known[OF f] by (simp add: s1_def)
  have us: "undoStack s1 = undoStack s @ [TOGGLE_COMPLETE k (isCompleted task)]"
    by (simp add: s1_def)
  have restore: "(if task_id (g1 t) = k
        then (g1 t)\<lparr>isCompleted := isCompleted task, updatedAt := Some now'\<rparr> else g1 t)
      = (if task_id t = k then t\<lparr>updatedAt := Some now'\<rparr> else t)" if "t \<in> set (tasks s)" for t
  proof (cases "task_id t = k")
    case True
    with found_is_only[OF d f that] have "t = task" by simp
    then show ?thesis using True by (simp add: g1_def)
  next
    case False
    then show ?thesis by (simp add: g1_def)
  qed
  have "map (\<lambda>t. if task_id t = k
          then t\<lparr>isCompleted := isCompleted task, updatedAt := Some now'\<rparr> else t) (tasks s1)
      = map (\<lambda>t. if task_id t = k then t\<lparr>updatedAt := Some now'\<rparr> else t) (tasks s)"
    using restore by (simp add: s1_def)
  then have "undo now' s1 = Some (s\<lparr>tasks := map (\<lambda>t. if task_id t = k
                              then t\<lparr>updatedAt := Some now'\<rparr> else t) (tasks s)\<rparr>)"
    unfolding undo_TOGGLE[OF us known] by (simp add: s1_def)
  with a show ?thesis by blast
qed

lemma updateTaskTitle_undo:
  assumes d: "distinct (map task_id (tasks s))"
    and f: "find (\<lambda>t. task_id t = k) (tasks s) = Some task"
    and nb: "trim x \<noteq> []" and ch: "x \<noteq> title task"
  shows "\<exists>s1. updateTaskTitle now k x s = Some s1
     \<and> undo now' s1 = Some (s\<lparr>tasks := map (\<lambda>t. if task_id t = k
                              then t\<lparr>updatedAt := Some now'\<rparr> else t) (tasks s),
                            editingId := None\<rparr>)"
proof -
  define g1 :: "Task \<Rightarrow> Task" where "g1 = (\<lambda>t. if task_id t = k
     then t\<lparr>title := x, updatedAt := Some now\<rparr> else t)"
  define s1 where "s1 = s\<lparr>tasks := map g1 (tasks s),
     undoStack := undoStack s @ [UPDATE_TASK k (title task) x], editingId := None\<rparr>"
  have a: "updateTaskTitle now k x s = Some s1"
    unfolding updateTaskTitle_changed[OF f nb ch] s1_def g1_def by simp
  have idg: "task_id (g1 t) = task_id t" for t
    by (simp add: g1_def)
  have "task_id ` set (map g1 (tasks s)) = task_id ` set (tasks s)"
    by (simp add: image_image idg)
  then have known: "k \<in> task_id ` set (tasks s1)"
    using find_known[OF f] by (simp add: s1_def)
  have us: "undoStack s1 = undoStack s @ [UPDATE_TASK k (title task) x]"
    by (simp add: s1_def)
  have restore: "(if task_id (g1 t) = k
        then (g1 t)\<lparr>title := title task, updatedAt := Some now'\<rparr> else g1 t)
      = (if task_id t = k then t\<lparr>updatedAt := Some now'\<rparr> else t)" if "t \<in> set (tasks s)" for t
  proof (cases "task_id t = k")
    case True
    with found_is_only[OF d f that] have "t = task" by simp
    then show ?thesis using True by (simp add: g1_def)
  next
    case False
    then show ?thesis by (simp add: g1_def)
  qed
  have "map (\<lambda>t. if task_id t = k
          then t\<lparr>title := title task, updatedAt := Some now'\<rparr> else t) (tasks s1)
      = map (\<lambda>t. if task_id t = k then t\<lparr>updatedAt := Some now'\<rparr> else t) (tasks s)"
    using restore by (simp add: s1_def)
  then have "undo now' s1 = Some (s\<lparr>tasks := map (\<lambda>t. if task_id t = k
                              then t\<lparr>updatedAt := Some now'\<rparr> else t) (tasks s),
                            editingId := None\<rparr>)"
    unfolding undo_UPDATE[OF us known] by (simp add: s1_def)
  with a show ?thesis by blast
qed


lemma restore_mset:
  fixes g :: "Task \<Rightarrow> Task"
  assumes g: "\<And>t. task_id t \<noteq> k \<Longrightarrow> g t = t"
  shows "distinct (map task_id ts) \<Longrightarrow> task \<in> set ts \<Longrightarrow> task_id task = k \<Longrightarrow>
         mset (filter (\<lambda>t. task_id t \<noteq> k) ts @ [g task]) = mset (map g ts)"
proof (induction ts)
  case Nil
  then show ?case by simp
next
  case (Cons a rest)
  show ?case
  proof (cases "a = task")
    case True
    with Cons.prems have "k \<notin> task_id ` set rest"
      by auto
    then have "\<And>t. t \<in> set rest \<Longrightarrow> task_id t \<noteq> k"
      by blast
    then have "filter (\<lambda>t. task_id t \<noteq> k) rest = rest" "map g rest = rest"
      by (simp_all add: filter_id_conv g map_idI)
    with True Cons.prems(3) show ?thesis by simp
  next
    case False
    with Cons.prems have tin: "task \<in> set rest" and ak: "task_id a \<noteq> k"
      by auto
    from Cons.prems have "distinct (map task_id rest)"
      by simp
    from Cons.IH[OF this tin Cons.prems(3)] ak show ?thesis
      by (simp add: g)
  qed
qed

lemma deleteTask_undo:
  assumes d: "distinct (map task_id (tasks s))"
    and f: "find (\<lambda>t. task_id t = k) (tasks s) = Some task"
  shows "\<exists>s1 i. deleteTask k s = Some s1
     \<and> undoStack s1 = undoStack s @ [DELETE_TASK task i]
     \<and> tasks s1 = filter (\<lambda>t. task_id t \<noteq> k) (tasks s)
     \<and> undo now' s1 = Some (s\<lparr>tasks := filter (\<lambda>t. task_id t \<noteq> k) (tasks s)
                                         @ [task\<lparr>updatedAt := Some now'\<rparr>]\<rparr>)"
proof -
  from find_findIndex[OF f] obtain i where
    i: "findIndex (\<lambda>t. task_id t = k) (tasks s) = Some i" and ti: "tasks s ! i = task"
    by blast
  define s1 where "s1 = s\<lparr>tasks := filter (\<lambda>t. task_id t \<noteq> k) (tasks s),
     undoStack := undoStack s @ [DELETE_TASK task i]\<rparr>"
  have a: "deleteTask k s = Some s1"
    unfolding deleteTask_known[OF i] ti s1_def by simp
  have tk: "task_id task = k"
    using find_task_id[OF f] by simp
  have absent: "task_id task \<notin> task_id ` set (tasks s1)"
    unfolding tk by (auto simp: s1_def)
  have us: "undoStack s1 = undoStack s @ [DELETE_TASK task i]"
    by (simp add: s1_def)
  have "undo now' s1 = Some (s\<lparr>tasks := filter (\<lambda>t. task_id t \<noteq> k) (tasks s)
                                         @ [task\<lparr>updatedAt := Some now'\<rparr>]\<rparr>)"
    unfolding undo_DELETE_absent[OF us absent] by (simp add: s1_def)
  with a us show ?thesis
    by (intro exI[of _ s1] exI[of _ i]) (simp add: s1_def)
qed

lemma sort_key_restore:
  fixes f :: "'a \<Rightarrow> 'k::linorder" and g :: "'a \<Rightarrow> 'a"
  assumes fg: "\<And>y. f (g y) = f y"
    and idpre: "\<And>y. y \<in> set pre \<Longrightarrow> g y = y"
    and idpost: "\<And>y. y \<in> set post \<Longrightarrow> g y = y"
    and later: "\<And>y. y \<in> set post \<Longrightarrow> f y \<noteq> f x"
  shows "sort_key f (pre @ post @ [g x]) = map g (sort_key f (pre @ x # post))"
proof (rule properties_for_sort_key)
  have mpre: "map g pre = pre" and mpost: "map g post = post"
    using idpre idpost by (simp_all add: map_idI)
  have "mset (map g (sort_key f (pre @ x # post))) = mset (map g (pre @ x # post))"
    by (simp only: mset_map mset_sort)
  also have "\<dots> = mset (pre @ post @ [g x])"
    using mpre mpost by simp
  finally show "mset (map g (sort_key f (pre @ x # post))) = mset (pre @ post @ [g x])" .
  show "sorted (map f (map g (sort_key f (pre @ x # post))))"
    by (simp add: o_def fg)
  fix c
  assume "c \<in> set (map g (sort_key f (pre @ x # post)))"
  have fpre: "map g (filter (\<lambda>y. f c = f y) pre) = filter (\<lambda>y. f c = f y) pre"
    by (rule map_idI) (simp add: idpre)
  have fpost: "map g (filter (\<lambda>y. f c = f y) post) = filter (\<lambda>y. f c = f y) post"
    by (rule map_idI) (simp add: idpost)
  have none: "filter (\<lambda>y. f c = f y) post = []" if "f c = f x"
    unfolding filter_empty_conv using later that by metis
  have "filter (\<lambda>y. f c = f y) (map g (sort_key f (pre @ x # post)))
      = map g (filter (\<lambda>y. f c = f y) (sort_key f (pre @ x # post)))"
    by (simp add: filter_map o_def fg)
  also have "filter (\<lambda>y. f c = f y) (sort_key f (pre @ x # post))
      = filter (\<lambda>y. f c = f y) (pre @ x # post)"
    using sort_key_stable[of f "f c" "pre @ x # post"] by (simp add: eq_commute)
  also have "map g (filter (\<lambda>y. f c = f y) (pre @ x # post))
      = filter (\<lambda>y. f c = f y) (pre @ post @ [g x])"
    using fpre fpost none by (simp add: fg)
  finally show "filter (\<lambda>y. f c = f y) (map g (sort_key f (pre @ x # post)))
      = filter (\<lambda>y. f c = f y) (pre @ post @ [g x])" .
qed

lemma find_splits:
  "find (\<lambda>t. task_id t = k) ts = Some task \<Longrightarrow>
   ts = takeWhile (\<lambda>t. task_id t \<noteq> k) ts @ task # laterTasks k ts"
  by (induction ts) (auto simp: laterTasks_def split: if_splits)

lemma restored_active_index:
  assumes d: "distinct (map task_id ts)"
    and f: "find (\<lambda>t. task_id t = k) ts = Some task"
    and act: "\<not> isCompleted task"
    and later: "list_all (\<lambda>t. isCompleted t \<or> sortOrder t \<noteq> sortOrder task) (laterTasks k ts)"
  shows "activeTasks (filter (\<lambda>t. task_id t \<noteq> k) ts @ [task\<lparr>updatedAt := Some u\<rparr>])
         = map (restamped k u) (activeTasks ts)"
proof -
  define pre where "pre = takeWhile (\<lambda>t. task_id t \<noteq> k) ts"
  define post where "post = laterTasks k ts"
  let ?P = "\<lambda>t. \<not> isCompleted t"
  have ts: "ts = pre @ task # post"
    unfolding pre_def post_def using f by (rule find_splits)
  from find_task_id[OF f] have tk: "task_id task = k"
    by simp
  have pre_k: "task_id t \<noteq> k" if "t \<in> set pre" for t
    using that unfolding pre_def by (auto dest: set_takeWhileD)
  have post_k: "task_id t \<noteq> k" if "t \<in> set post" for t
  proof -
    from d ts have "distinct (map task_id (pre @ task # post))"
      by simp
    then have "task_id task \<notin> task_id ` set post"
      by auto
    with that tk show ?thesis by (metis imageI)
  qed
  have del: "filter (\<lambda>t. task_id t \<noteq> k) ts = pre @ post"
  proof -
    have "filter (\<lambda>t. task_id t \<noteq> k) pre = pre" "filter (\<lambda>t. task_id t \<noteq> k) post = post"
      using pre_k post_k by (simp_all add: filter_id_conv)
    then show ?thesis
      by (subst ts) (simp add: tk)
  qed
  have stamp: "task\<lparr>updatedAt := Some u\<rparr> = restamped k u task"
    using tk by (simp add: restamped_def)
  have "sort_key sortOrder (filter ?P pre @ filter ?P post @ [restamped k u task])
      = map (restamped k u) (sort_key sortOrder (filter ?P pre @ task # filter ?P post))"
  proof (rule sort_key_restore)
    show "sortOrder (restamped k u y) = sortOrder y" for y
      by (simp add: restamped_def)
    show "restamped k u y = y" if "y \<in> set (filter ?P pre)" for y
      using that pre_k by (simp add: restamped_def)
    show "restamped k u y = y" if "y \<in> set (filter ?P post)" for y
      using that post_k by (simp add: restamped_def)
    show "sortOrder y \<noteq> sortOrder task" if "y \<in> set (filter ?P post)" for y
      using that later by (auto simp: post_def list_all_iff)
  qed
  moreover have "filter ?P (filter (\<lambda>t. task_id t \<noteq> k) ts @ [task\<lparr>updatedAt := Some u\<rparr>])
      = filter ?P pre @ filter ?P post @ [restamped k u task]"
    unfolding del stamp[symmetric] using act by simp
  moreover have "filter ?P ts = filter ?P pre @ task # filter ?P post"
    by (subst ts) (simp add: act)
  ultimately show ?thesis
    by (simp add: activeTasks_def)
qed

text \<open>
  C1, as the code has it: \<open>undo\<close> writes the clock reading of the undo into \<open>updatedAt\<close>
  of the task it restores, so the state before the operation comes back up to that stamp.
  For a state with distinct ids:
  \<^item> \<open>addTask\<close> with a fresh id, then \<open>undo\<close>: the collection and the undo stack are
    exactly those before the add;
  \<^item> \<open>toggleComplete\<close> or a title-changing \<open>updateTaskTitle\<close> of a known id, then
    \<open>undo\<close>: the undo stack is as before, and the collection is as before, position by
    position, but for \<open>updatedAt\<close> of the task, which is the reading of the undo;
  \<^item> \<open>deleteTask\<close> of a known id, then \<open>undo\<close>: the undo stack is as before, and the
    collection holds the same tasks as before but for the task's \<open>updatedAt\<close>; the
    active view is the one before, position by position, with the restamped task at its
    old index, when the task is active and no task that the snapshot lists after it is
    active with the same sort key (the restored task is listed last, and the sort is
    stable, so only such a task gets in front of it).
\<close>

theorem undo_inverts:
  "(trim (newTaskTitle s) \<noteq> [] \<and> newId \<notin> task_id ` set (tasks s) \<longrightarrow>
      (\<exists>s1 s2. addTask newId now s = Some s1 \<and> undo now' s1 = Some s2
         \<and> tasks s2 = tasks s \<and> undoStack s2 = undoStack s))
   \<and> (distinct (map task_id (tasks s)) \<and> find (\<lambda>t. task_id t = k) (tasks s) = Some task \<longrightarrow>
      (\<exists>s1 s2. toggleComplete now k s = Some s1 \<and> undo now' s1 = Some s2
         \<and> tasks s2 = map (restamped k now') (tasks s) \<and> undoStack s2 = undoStack s))
   \<and> (distinct (map task_id (tasks s)) \<and> find (\<lambda>t. task_id t = k) (tasks s) = Some task
        \<and> trim x \<noteq> [] \<and> x \<noteq> title task \<longrightarrow>
      (\<exists>s1 s2. updateTaskTitle now k x s = Some s1 \<and> undo now' s1 = Some s2
         \<and> tasks s2 = map (restamped k now') (tasks s) \<and> undoStack s2 = undoStack s))
   \<and> (distinct (map task_id (tasks s)) \<and> find (\<lambda>t. task_id t = k) (tasks s) = Some task \<longrightarrow>
      (\<exists>s1 s2. deleteTask k s = Some s1 \<and> undo now' s1 = Some s2
         \<and> mset (tasks s2) = mset (map (restamped k now') (tasks s))
         \<and> undoStack s2 = undoStack s
         \<and> (\<not> isCompleted task
              \<and> list_all (\<lambda>t. isCompleted t \<or> sortOrder t \<noteq> sortOrder task)
                    (laterTasks k (tasks s)) \<longrightarrow>
              activeTasks (tasks s2) = map (restamped k now') (activeTasks (tasks s)))))"
proof (intro conjI impI)
  assume "trim (newTaskTitle s) \<noteq> [] \<and> newId \<notin> task_id ` set (tasks s)"
  then obtain s1 where "addTask newId now s = Some s1"
    "undo now' s1 = Some (s\<lparr>newTaskTitle := []\<rparr>)"
    using addTask_undo[of s newId now now'] by blast
  then show "\<exists>s1 s2. addTask newId now s = Some s1 \<and> undo now' s1 = Some s2
         \<and> tasks s2 = tasks s \<and> undoStack s2 = undoStack s"
    by (intro exI[of _ s1] exI[of _ "s\<lparr>newTaskTitle := []\<rparr>"]) simp
next
  assume "distinct (map task_id (tasks s)) \<and> find (\<lambda>t. task_id t = k) (tasks s) = Some task"
  then obtain s1 where "toggleComplete now k s = Some s1"
    "undo now' s1 = Some (s\<lparr>tasks := map (\<lambda>t. if task_id t = k
                              then t\<lparr>updatedAt := Some now'\<rparr> else t) (tasks s)\<rparr>)"
    using toggleComplete_undo[of s k task now now'] by blast
  then show "\<exists>s1 s2. toggleComplete now k s = Some s1 \<and> undo now' s1 = Some s2
         \<and> tasks s2 = map (restamped k now') (tasks s) \<and> undoStack s2 = undoStack s"
    by (intro exI[of _ s1] exI[of _ "s\<lparr>tasks := map (\<lambda>t. if task_id t = k
                              then t\<lparr>updatedAt := Some now'\<rparr> else t) (tasks s)\<rparr>"])
       (simp add: restamped_def[abs_def])
next
  assume "distinct (map task_id (tasks s)) \<and> find (\<lambda>t. task_id t = k) (tasks s) = Some task
        \<and> trim x \<noteq> [] \<and> x \<noteq> title task"
  then obtain s1 where "updateTaskTitle now k x s = Some s1"
    "undo now' s1 = Some (s\<lparr>tasks := map (\<lambda>t. if task_id t = k
                              then t\<lparr>updatedAt := Some now'\<rparr> else t) (tasks s),
                            editingId := None\<rparr>)"
    using updateTaskTitle_undo[of s k task x now now'] by blast
  then show "\<exists>s1 s2. updateTaskTitle now k x s = Some s1 \<and> undo now' s1 = Some s2
         \<and> tasks s2 = map (restamped k now') (tasks s) \<and> undoStack s2 = undoStack s"
    by (intro exI[of _ s1] exI[of _ "s\<lparr>tasks := map (\<lambda>t. if task_id t = k
                              then t\<lparr>updatedAt := Some now'\<rparr> else t) (tasks s),
                            editingId := None\<rparr>"])
       (simp add: restamped_def[abs_def])
next
  assume a: "distinct (map task_id (tasks s)) \<and> find (\<lambda>t. task_id t = k) (tasks s) = Some task"
  then have d: "distinct (map task_id (tasks s))"
    and f: "find (\<lambda>t. task_id t = k) (tasks s) = Some task"
    by simp_all
  let ?ts2 = "filter (\<lambda>t. task_id t \<noteq> k) (tasks s) @ [task\<lparr>updatedAt := Some now'\<rparr>]"
  from deleteTask_undo[OF d f, of now'] obtain s1 where
    s1: "deleteTask k s = Some s1" "undo now' s1 = Some (s\<lparr>tasks := ?ts2\<rparr>)"
    by blast
  from find_task_id[OF f] have tin: "task \<in> set (tasks s)" and tk: "task_id task = k"
    by simp_all
  have "task\<lparr>updatedAt := Some now'\<rparr> = restamped k now' task"
    using tk by (simp add: restamped_def)
  then have m: "mset ?ts2 = mset (map (restamped k now') (tasks s))"
    using restore_mset[of k "restamped k now'", OF _ d tin tk] by (simp add: restamped_def)
  have v: "activeTasks ?ts2 = map (restamped k now') (activeTasks (tasks s))"
    if "\<not> isCompleted task
        \<and> list_all (\<lambda>t. isCompleted t \<or> sortOrder t \<noteq> sortOrder task)
              (laterTasks k (tasks s))"
    using that restored_active_index[OF d f, of now'] by blast
  from s1 m v show "\<exists>s1 s2. deleteTask k s = Some s1 \<and> undo now' s1 = Some s2
         \<and> mset (tasks s2) = mset (map (restamped k now') (tasks s))
         \<and> undoStack s2 = undoStack s
         \<and> (\<not> isCompleted task
              \<and> list_all (\<lambda>t. isCompleted t \<or> sortOrder t \<noteq> sortOrder task)
                    (laterTasks k (tasks s)) \<longrightarrow>
              activeTasks (tasks s2) = map (restamped k now') (activeTasks (tasks s)))"
    by (intro exI[of _ s1] exI[of _ "s\<lparr>tasks := ?ts2\<rparr>"]) simp
qed

theorem undo_inverts_witness:
  "map_option tasks
     (Option.bind (addTask ''n'' 5
        ((mkState [mkTask ''a'' ''A'' False 0 1, mkTask ''b'' ''B'' False 1 2] [])
           \<lparr>newTaskTitle := ''N''\<rparr>)) (undo 6))
     = Some [mkTask ''a'' ''A'' False 0 1, mkTask ''b'' ''B'' False 1 2]
   \<and> map_option tasks
     (Option.bind (toggleComplete 5 ''a''
        (mkState [mkTask ''a'' ''A'' False 0 1, mkTask ''b'' ''B'' False 1 2] [])) (undo 6))
     = Some [(mkTask ''a'' ''A'' False 0 1)\<lparr>updatedAt := Some 6\<rparr>, mkTask ''b'' ''B'' False 1 2]
   \<and> map_option tasks
     (Option.bind (updateTaskTitle 5 ''a'' ''Z''
        (mkState [mkTask ''a'' ''A'' False 0 1, mkTask ''b'' ''B'' False 1 2] [])) (undo 6))
     = Some [(mkTask ''a'' ''A'' False 0 1)\<lparr>updatedAt := Some 6\<rparr>, mkTask ''b'' ''B'' False 1 2]
   \<and> map_option (activeTasks \<circ> tasks)
     (Option.bind (deleteTask ''a''
        (mkState [mkTask ''a'' ''A'' False 0 1, mkTask ''c'' ''C'' False 2 3,
                  mkTask ''d'' ''D'' False 2 4] [])) (undo 6))
     = Some [(mkTask ''a'' ''A'' False 0 1)\<lparr>updatedAt := Some 6\<rparr>, mkTask ''c'' ''C'' False 2 3,
             mkTask ''d'' ''D'' False 2 4]"
proof -
  let ?a = "mkTask ''a'' ''A'' False 0 1"
  let ?b = "mkTask ''b'' ''B'' False 1 2"
  let ?c = "mkTask ''c'' ''C'' False 2 3"
  let ?d = "mkTask ''d'' ''D'' False 2 4"
  let ?s = "mkState [?a, ?b] []"
  let ?sn = "?s\<lparr>newTaskTitle := ''N''\<rparr>"
  let ?r = "mkState [?a, ?c, ?d] []"
  have ts: "tasks ?s = [?a, ?b]" "tasks ?sn = [?a, ?b]"
    by (simp_all add: mkState_def)
  have act: "activeTasks (tasks ?r) = [?a, ?c, ?d]"
    by (simp add: mkState_def mkTask_def activeTasks_def)
  have rs: "restamped ''a'' 6 ?a = ?a\<lparr>updatedAt := Some 6\<rparr>" "restamped ''a'' 6 ?b = ?b"
    "restamped ''a'' 6 ?c = ?c" "restamped ''a'' 6 ?d = ?d"
    by (simp_all add: restamped_def mkTask_def)
  have h1: "trim (newTaskTitle ?sn) \<noteq> [] \<and> ''n'' \<notin> task_id ` set (tasks ?sn)"
    by (simp add: mkState_def mkTask_def trim_def isWhiteSpace_def)
  have h2: "distinct (map task_id (tasks ?s))
      \<and> find (\<lambda>t. task_id t = ''a'') (tasks ?s) = Some ?a"
    by (simp add: mkState_def mkTask_def)
  have h3: "distinct (map task_id (tasks ?s))
      \<and> find (\<lambda>t. task_id t = ''a'') (tasks ?s) = Some ?a
      \<and> trim ''Z'' \<noteq> [] \<and> ''Z'' \<noteq> title ?a"
    by (simp add: mkState_def mkTask_def trim_def isWhiteSpace_def)
  have h4: "distinct (map task_id (tasks ?r))
      \<and> find (\<lambda>t. task_id t = ''a'') (tasks ?r) = Some ?a"
    by (simp add: mkState_def mkTask_def)
  have h5: "\<not> isCompleted ?a
      \<and> list_all (\<lambda>t. isCompleted t \<or> sortOrder t \<noteq> sortOrder ?a) (laterTasks ''a'' (tasks ?r))"
    by (simp add: mkState_def mkTask_def laterTasks_def)
  from undo_inverts[where s = ?sn and newId = "''n''" and now = 5 and now' = 6] h1
  obtain a1 a2 where "addTask ''n'' 5 ?sn = Some a1" "undo 6 a1 = Some a2"
    "tasks a2 = tasks ?sn"
    by blast
  then have c1: "map_option tasks (Option.bind (addTask ''n'' 5 ?sn) (undo 6)) = Some [?a, ?b]"
    by (simp add: ts)
  from undo_inverts[where s = ?s and k = "''a''" and task = ?a and now = 5 and now' = 6] h2
  obtain t1 t2 where "toggleComplete 5 ''a'' ?s = Some t1" "undo 6 t1 = Some t2"
    "tasks t2 = map (restamped ''a'' 6) (tasks ?s)"
    by blast
  then have c2: "map_option tasks (Option.bind (toggleComplete 5 ''a'' ?s) (undo 6))
      = Some [?a\<lparr>updatedAt := Some 6\<rparr>, ?b]"
    by (simp add: ts rs)
  from undo_inverts[where s = ?s and k = "''a''" and task = ?a and x = "''Z''" and now = 5
      and now' = 6] h3
  obtain u1 u2 where "updateTaskTitle 5 ''a'' ''Z'' ?s = Some u1" "undo 6 u1 = Some u2"
    "tasks u2 = map (restamped ''a'' 6) (tasks ?s)"
    by blast
  then have c3: "map_option tasks (Option.bind (updateTaskTitle 5 ''a'' ''Z'' ?s) (undo 6))
      = Some [?a\<lparr>updatedAt := Some 6\<rparr>, ?b]"
    by (simp add: ts rs)
  from undo_inverts[where s = ?r and k = "''a''" and task = ?a and now' = 6] h4 h5
  obtain d1 d2 where "deleteTask ''a'' ?r = Some d1" "undo 6 d1 = Some d2"
    "activeTasks (tasks d2) = map (restamped ''a'' 6) (activeTasks (tasks ?r))"
    by blast
  then have c4: "map_option (activeTasks \<circ> tasks) (Option.bind (deleteTask ''a'' ?r) (undo 6))
      = Some [?a\<lparr>updatedAt := Some 6\<rparr>, ?c, ?d]"
    by (simp add: act rs)
  from c1 c2 c3 c4 show ?thesis by simp
qed

text \<open>
  Where the claim fails. After add A, the stamp of A is 1; after completing A at 2 and
  undoing at 3 it is 3. With A and B completed at 3 and 4 the completed view lists B, A;
  after deleting A and undoing at 9 it lists A, B. And with B and C active, both with sort
  key 1 (add A, add B, delete A, add C), the active view lists B, C; after deleting B and
  undoing it lists C, B.
\<close>

theorem undo_updatedAt_counterexample:
  "map_option (map updatedAt \<circ> tasks) (run [Add ''a'' 1 ''A''] initState) = Some [Some 1]
   \<and> map_option (map updatedAt \<circ> tasks)
       (Option.bind (run [Add ''a'' 1 ''A'', ToggleComplete 2 ''a''] initState) (undo 3))
     = Some [Some 3]
   \<and> map_option (map task_id \<circ> completedTasks \<circ> tasks)
       (run [Add ''a'' 1 ''A'', Add ''b'' 2 ''B'', ToggleComplete 3 ''a'',
             ToggleComplete 4 ''b''] initState)
     = Some [''b'', ''a'']
   \<and> map_option (map task_id \<circ> completedTasks \<circ> tasks)
       (Option.bind (run [Add ''a'' 1 ''A'', Add ''b'' 2 ''B'', ToggleComplete 3 ''a'',
             ToggleComplete 4 ''b'', DeleteCmd ''a''] initState) (undo 9))
     = Some [''a'', ''b'']
   \<and> map_option (map sortOrder \<circ> activeTasks \<circ> tasks)
       (run [Add ''a'' 1 ''A'', Add ''b'' 2 ''B'', DeleteCmd ''a'', Add ''c'' 3 ''C'']
          initState)
     = Some [1, 1]
   \<and> map_option (map task_id \<circ> activeTasks \<circ> tasks)
       (run [Add ''a'' 1 ''A'', Add ''b'' 2 ''B'', DeleteCmd ''a'', Add ''c'' 3 ''C'']
          initState)
     = Some [''b'', ''c'']
   \<and> map_option (map task_id \<circ> activeTasks \<circ> tasks)
       (Option.bind (run [Add ''a'' 1 ''A'', Add ''b'' 2 ''B'', DeleteCmd ''a'',
             Add ''c'' 3 ''C'', DeleteCmd ''b''] initState) (undo 9))
     = Some [''c'', ''b'']"
  by (simp add: initState_def addTask_def toggleComplete_def deleteTask_def undo_def
      applyOp_def patchOfTask_def noPatch_def applyPatch_def trim_def isWhiteSpace_def
      Let_def completedTasks_def activeTasks_def updatedAtOr0_def)

section \<open>No blank title is kept\<close>

lemma applyOp_titles:
  assumes "applyOp op ts = Some ts'" and "list_all (\<lambda>t. trim (title t) \<noteq> []) ts"
    and "case op of Delete k \<Rightarrow> True
         | Update k p \<Rightarrow> (case p_title p of None \<Rightarrow> True | Some x \<Rightarrow> trim x \<noteq> [])"
  shows "list_all (\<lambda>t. trim (title t) \<noteq> []) ts'"
proof (cases op)
  case (Delete k)
  with assms show ?thesis
    by (auto simp: applyOp_def list_all_iff)
next
  case (Update k p)
  show ?thesis
  proof (cases "k \<in> task_id ` set ts")
    case True
    have "trim (title (applyPatch p t)) \<noteq> []" if "trim (title t) \<noteq> []" for t
      using that assms(3) Update by (simp add: applyPatch_def split: option.splits)
    with assms(1,2) Update True show ?thesis
      by (auto simp: applyOp_Update_known list_all_iff)
  next
    case False
    with assms Update show ?thesis
      by (auto simp: applyOp_def list_all_iff split: option.splits)
  qed
qed

lemma transact_single_titles:
  assumes "transact [op] ts = Some ts'" and "list_all (\<lambda>t. trim (title t) \<noteq> []) ts"
    and "case op of Delete k \<Rightarrow> True
         | Update k p \<Rightarrow> (case p_title p of None \<Rightarrow> True | Some x \<Rightarrow> trim x \<noteq> [])"
  shows "list_all (\<lambda>t. trim (title t) \<noteq> []) ts'"
proof -
  from assms(1) have "applyOp op ts = Some ts'"
    by (simp only: transact_single)
  from applyOp_titles[OF this assms(2,3)] show ?thesis .
qed

lemma addTask_titlesOk: "addTask newId now s = Some s' \<Longrightarrow> titlesOk s \<Longrightarrow> titlesOk s'"
proof (cases "trim (newTaskTitle s) = []")
  case True
  then show "addTask newId now s = Some s' \<Longrightarrow> titlesOk s \<Longrightarrow> titlesOk s'"
    by (simp add: addTask_blank)
next
  case False
  assume a: "addTask newId now s = Some s'" and ok: "titlesOk s"
  let ?nt = "\<lparr>task_id = newId, title = newTaskTitle s, isCompleted = False,
      sortOrder = int (length (tasks s)), createdAt = Some now, updatedAt = Some now,
      userId = None\<rparr>"
  from a False obtain ts' where t: "transact [Update newId (patchOfTask ?nt)] (tasks s) = Some ts'"
    and s': "s' = s\<lparr>tasks := ts', undoStack := undoStack s @ [ADD_TASK ?nt], newTaskTitle := []\<rparr>"
    by (auto simp: addTask_def Let_def simp del: transact.simps)
  have "list_all (\<lambda>t. trim (title t) \<noteq> []) ts'"
    using t ok False by (intro transact_single_titles[OF t]) (simp_all add: titlesOk_def patchOfTask_def)
  with ok False show "titlesOk s'"
    by (simp add: titlesOk_def s')
qed

lemma toggleComplete_titlesOk:
  "toggleComplete now k s = Some s' \<Longrightarrow> titlesOk s \<Longrightarrow> titlesOk s'"
proof (cases "find (\<lambda>t. task_id t = k) (tasks s)")
  case None
  then show "toggleComplete now k s = Some s' \<Longrightarrow> titlesOk s \<Longrightarrow> titlesOk s'"
    by (simp add: toggleComplete_unknown)
next
  case (Some task)
  assume "toggleComplete now k s = Some s'" and "titlesOk s"
  then show "titlesOk s'"
    unfolding toggleComplete_known[OF Some]
    by (auto simp: titlesOk_def list_all_iff)
qed

lemma deleteTask_titlesOk: "deleteTask k s = Some s' \<Longrightarrow> titlesOk s \<Longrightarrow> titlesOk s'"
proof (cases "findIndex (\<lambda>t. task_id t = k) (tasks s)")
  case None
  then show "deleteTask k s = Some s' \<Longrightarrow> titlesOk s \<Longrightarrow> titlesOk s'"
    by (simp add: deleteTask_def)
next
  case (Some i)
  assume a: "deleteTask k s = Some s'" and ok: "titlesOk s"
  from findIndex_Some[OF Some] have "tasks s ! i \<in> set (tasks s)"
    by simp
  with ok have "trim (title (tasks s ! i)) \<noteq> []"
    by (simp add: titlesOk_def list_all_iff)
  with a ok show "titlesOk s'"
    unfolding deleteTask_known[OF Some] by (auto simp: titlesOk_def list_all_iff)
qed

lemma updateTaskTitle_titlesOk:
  "updateTaskTitle now k x s = Some s' \<Longrightarrow> titlesOk s \<Longrightarrow> titlesOk s'"
proof (cases "find (\<lambda>t. task_id t = k) (tasks s)")
  case None
  then show "updateTaskTitle now k x s = Some s' \<Longrightarrow> titlesOk s \<Longrightarrow> titlesOk s'"
    by (simp add: updateTaskTitle_unknown)
next
  case (Some task)
  assume a: "updateTaskTitle now k x s = Some s'" and ok: "titlesOk s"
  from find_task_id[OF Some] ok have tt: "trim (title task) \<noteq> []"
    by (simp add: titlesOk_def list_all_iff)
  show "titlesOk s'"
  proof (cases "trim x = []")
    case True
    from a obtain s2 where "deleteTask k s = Some s2" "s' = s2\<lparr>editingId := None\<rparr>"
      unfolding updateTaskTitle_blank[OF Some True] by auto
    with deleteTask_titlesOk[OF _ ok] show ?thesis
      by (simp add: titlesOk_def)
  next
    case False
    show ?thesis
    proof (cases "x = title task")
      case True
      with a ok False show ?thesis
        by (auto simp: updateTaskTitle_same[OF Some] titlesOk_def)
    next
      case neq: False
      from a ok False tt show ?thesis
        unfolding updateTaskTitle_changed[OF Some False neq]
        by (auto simp: titlesOk_def list_all_iff)
    qed
  qed
qed

lemma undo_titlesOk: "undo now s = Some s' \<Longrightarrow> titlesOk s \<Longrightarrow> titlesOk s'"
proof (cases "undoStack s = []")
  case True
  then show "undo now s = Some s' \<Longrightarrow> titlesOk s \<Longrightarrow> titlesOk s'"
    by (simp add: undo_empty)
next
  case False
  assume a: "undo now s = Some s'" and ok: "titlesOk s"
  from ok have tk: "list_all (\<lambda>t. trim (title t) \<noteq> []) (tasks s)"
    and sk: "list_all actionTitleOk (undoStack s)"
    by (simp_all add: titlesOk_def)
  from False sk have lk: "actionTitleOk (last (undoStack s))"
    by (simp add: list_all_iff)
  from sk have bk: "list_all actionTitleOk (butlast (undoStack s))"
    by (auto simp: list_all_iff dest: in_set_butlastD)
  from a False obtain op ts' where t: "transact [op] (tasks s) = Some ts'"
    and s': "s' = s\<lparr>undoStack := butlast (undoStack s), tasks := ts'\<rparr>"
    and op: "case op of Delete k \<Rightarrow> True
         | Update k p \<Rightarrow> (case p_title p of None \<Rightarrow> True | Some x \<Rightarrow> trim x \<noteq> [])"
    using lk
    by (cases "last (undoStack s)")
       (auto simp: undo_def Let_def patchOfTask_def noPatch_def simp del: transact.simps)
  from transact_single_titles[OF t tk op] bk show "titlesOk s'"
    by (simp add: titlesOk_def s')
qed

lemma transact_reorder_titles:
  "transact
     (map (\<lambda>(index, task). Update (task_id task)
             (noPatch\<lparr>p_sortOrder := Some (int index), p_updatedAt := Some (now index)\<rparr>))
          (enumerate n new)) ts = Some ts' \<Longrightarrow>
   list_all (\<lambda>t. trim (title t) \<noteq> []) ts \<Longrightarrow> list_all (\<lambda>t. trim (title t) \<noteq> []) ts'"
proof (induction new arbitrary: n ts)
  case Nil
  then show ?case by simp
next
  case (Cons a rest)
  from Cons.prems(1) obtain ts1 where
    f: "applyOp (Update (task_id a)
          (noPatch\<lparr>p_sortOrder := Some (int n), p_updatedAt := Some (now n)\<rparr>)) ts = Some ts1"
    and r: "transact
     (map (\<lambda>(index, task). Update (task_id task)
             (noPatch\<lparr>p_sortOrder := Some (int index), p_updatedAt := Some (now index)\<rparr>))
          (enumerate (Suc n) rest)) ts1 = Some ts'"
    by (auto split: option.splits)
  have "list_all (\<lambda>t. trim (title t) \<noteq> []) ts1"
    by (rule applyOp_titles[OF f Cons.prems(2)]) (simp add: noPatch_def)
  from Cons.IH[OF r this] show ?case .
qed

lemma handleReorder_titlesOk:
  "handleReorder now newOrder s = Some s' \<Longrightarrow> titlesOk s \<Longrightarrow> titlesOk s'"
  by (auto simp: handleReorder_def titlesOk_def simp del: transact.simps
      dest: transact_reorder_titles)

lemma run_titlesOk: "run cs s = Some s' \<Longrightarrow> titlesOk s \<Longrightarrow> titlesOk s'"
proof (induction cs arbitrary: s)
  case Nil
  then show ?case by simp
next
  case (Cons c cs)
  from Cons.prems(1) obtain s1 where s1: "exec c s = Some s1" and r: "run cs s1 = Some s'"
    by (auto split: option.splits)
  have "titlesOk (s\<lparr>newTaskTitle := x\<rparr>)" for x
    using Cons.prems(2) by (simp add: titlesOk_def)
  with s1 Cons.prems(2) have "titlesOk s1"
    by (cases c)
       (auto dest: addTask_titlesOk toggleComplete_titlesOk deleteTask_titlesOk
          updateTaskTitle_titlesOk)
  from Cons.IH[OF r this] show ?case .
qed

lemma titlesOk_initState: "titlesOk initState"
  by (simp add: titlesOk_def initState_def)

section \<open>The in-memory revision: how it compares\<close>

lemma splice_restores:
  "distinct (map task_id ts) \<Longrightarrow> findIndex (\<lambda>t. task_id t = k) ts = Some i \<Longrightarrow>
   take i (filter (\<lambda>t. task_id t \<noteq> k) ts) @ (ts ! i) # drop i (filter (\<lambda>t. task_id t \<noteq> k) ts)
     = ts"
proof (induction ts arbitrary: i)
  case Nil
  then show ?case by simp
next
  case (Cons a rest)
  show ?case
  proof (cases "task_id a = k")
    case True
    with Cons.prems have i0: "i = 0" and "k \<notin> task_id ` set rest"
      by auto
    then have "\<And>t. t \<in> set rest \<Longrightarrow> task_id t \<noteq> k"
      by blast
    then have "filter (\<lambda>t. task_id t \<noteq> k) rest = rest"
      by (simp add: filter_id_conv)
    with True i0 show ?thesis by simp
  next
    case False
    with Cons.prems obtain j where j: "i = Suc j" "findIndex (\<lambda>t. task_id t = k) rest = Some j"
      by auto
    from Cons.prems have "distinct (map task_id rest)"
      by simp
    from Cons.IH[OF this j(2)] False j(1) show ?thesis
      by simp
  qed
qed

text \<open>
  In the in-memory revision \<open>undo\<close> brings the state before the operation back exactly:
  there is no stamp to refresh, and a deleted task is spliced in at the index it had.
\<close>

lemma undo_mem_inverts:
  assumes d: "distinct (map task_id (tasks s))"
  shows "trim (newTaskTitle s) \<noteq> [] \<Longrightarrow> newId \<notin> task_id ` set (tasks s) \<Longrightarrow>
           undo_mem (addTask_mem newId s) = s\<lparr>newTaskTitle := []\<rparr>"
    and "find (\<lambda>t. task_id t = k) (tasks s) = Some task \<Longrightarrow>
           undo_mem (toggleComplete_mem k s) = s"
    and "find (\<lambda>t. task_id t = k) (tasks s) = Some task \<Longrightarrow>
           undo_mem (deleteTask_mem k s) = s"
    and "find (\<lambda>t. task_id t = k) (tasks s) = Some task \<Longrightarrow> trim x \<noteq> [] \<Longrightarrow> x \<noteq> title task \<Longrightarrow>
           undo_mem (updateTaskTitle_mem k x s) = s\<lparr>editingId := None\<rparr>"
proof -
  show "undo_mem (addTask_mem newId s) = s\<lparr>newTaskTitle := []\<rparr>"
    if "trim (newTaskTitle s) \<noteq> []" "newId \<notin> task_id ` set (tasks s)"
  proof -
    from that(2) have "filter (\<lambda>t. task_id t \<noteq> newId) (tasks s) = tasks s"
      by (auto simp: filter_id_conv)
    with that(1) show ?thesis
      by (simp add: addTask_mem_def undo_mem_def Let_def)
  qed
  show "undo_mem (toggleComplete_mem k s) = s"
    if f: "find (\<lambda>t. task_id t = k) (tasks s) = Some task"
  proof -
    have "(if task_id t = k then t\<lparr>isCompleted := isCompleted task\<rparr> else t) = t"
      if "t \<in> set (tasks s)" for t
      using found_is_only[OF d f that] by auto
    then have "map (\<lambda>t. if task_id t = k then t\<lparr>isCompleted := isCompleted task\<rparr> else t)
        (tasks s) = tasks s"
      by (intro map_idI)
    then show ?thesis
      using f by (simp add: toggleComplete_mem_def undo_mem_def Let_def o_def if_distrib
          cong: if_cong)
  qed
  show "undo_mem (deleteTask_mem k s) = s"
    if f: "find (\<lambda>t. task_id t = k) (tasks s) = Some task"
  proof -
    from find_findIndex[OF f] obtain i where
      i: "findIndex (\<lambda>t. task_id t = k) (tasks s) = Some i"
      by blast
    from splice_restores[OF d i] i show ?thesis
      by (simp add: deleteTask_mem_def undo_mem_def Let_def)
  qed
  show "undo_mem (updateTaskTitle_mem k x s) = s\<lparr>editingId := None\<rparr>"
    if f: "find (\<lambda>t. task_id t = k) (tasks s) = Some task" and "trim x \<noteq> []" "x \<noteq> title task"
  proof -
    have "(if task_id t = k then t\<lparr>title := title task\<rparr> else t) = t"
      if "t \<in> set (tasks s)" for t
      using found_is_only[OF d f that] by auto
    then have "map (\<lambda>t. if task_id t = k then t\<lparr>title := title task\<rparr> else t)
        (tasks s) = tasks s"
      by (intro map_idI)
    then show ?thesis
      using that by (simp add: updateTaskTitle_mem_def undo_mem_def Let_def o_def if_distrib
          cong: if_cong)
  qed
qed

text \<open>
  The other behaviours the claims turn on are those of the persisted revision: the sort
  key of a new task is the length of the whole list, a delete does not renumber, and a
  blank title for a known id is a delete.
\<close>

lemma addTask_mem_sortOrder:
  "trim (newTaskTitle s) \<noteq> [] \<Longrightarrow>
   map sortOrder (tasks (addTask_mem newId s)) = map sortOrder (tasks s) @ [int (length (tasks s))]"
  by (simp add: addTask_mem_def Let_def)

lemma deleteTask_mem_keeps_keys:
  "tasks (deleteTask_mem k s) = filter (\<lambda>t. task_id t \<noteq> k) (tasks s)"
proof (cases "findIndex (\<lambda>t. task_id t = k) (tasks s)")
  case None
  then have "\<And>t. t \<in> set (tasks s) \<Longrightarrow> task_id t \<noteq> k"
    by (simp add: findIndex_None_iff)
  then have "filter (\<lambda>t. task_id t \<noteq> k) (tasks s) = tasks s"
    by (simp add: filter_id_conv)
  with None show ?thesis by (simp add: deleteTask_mem_def)
next
  case (Some i)
  then show ?thesis by (simp add: deleteTask_mem_def)
qed

lemma updateTaskTitle_mem_blank:
  "find (\<lambda>t. task_id t = k) (tasks s) = Some task \<Longrightarrow> trim x = [] \<Longrightarrow>
   updateTaskTitle_mem k x s = (deleteTask_mem k s)\<lparr>editingId := None\<rparr>"
  by (simp add: updateTaskTitle_mem_def)

text \<open>
  Ids in the in-memory revision are clock readings: they stay distinct as long as each add
  reads a clock value that is not yet an id, and two adds within one millisecond give
  two tasks with the same id.
\<close>

lemma addTask_mem_ids:
  "distinct (map task_id (tasks s)) \<Longrightarrow> newId \<notin> task_id ` set (tasks s) \<Longrightarrow>
   distinct (map task_id (tasks (addTask_mem newId s)))"
  by (simp add: addTask_mem_def Let_def)

lemma addTask_mem_same_millisecond:
  "map task_id (tasks (addTask_mem ''1700000000000''
      ((addTask_mem ''1700000000000'' (initState\<lparr>newTaskTitle := ''A''\<rparr>))
         \<lparr>newTaskTitle := ''B''\<rparr>)))
   = [''1700000000000'', ''1700000000000'']"
  by (simp add: addTask_mem_def initState_def Let_def trim_def isWhiteSpace_def)

lemma handleReorder_mem_keys:
  assumes "list_all (\<lambda>t. \<not> isCompleted t) newOrder"
  shows "map sortOrder (activeTasks_mem (tasks (handleReorder_mem newOrder s)))
           = map int [0..<length newOrder]"
    and "undoStack (handleReorder_mem newOrder s) = undoStack s"
proof -
  let ?new = "map (\<lambda>(index, task). task\<lparr>sortOrder := int index\<rparr>) (enumerate 0 newOrder)"
  have act: "\<not> isCompleted t" if "t \<in> set ?new" for t
  proof -
    from that obtain i a where ia: "(i, a) \<in> set (enumerate 0 newOrder)"
      and t: "t = a\<lparr>sortOrder := int i\<rparr>"
      by auto
    from ia have "a \<in> set newOrder"
      by (auto simp: in_set_enumerate_eq)
    with assms t show ?thesis
      by (simp add: list_all_iff)
  qed
  then have "filter (\<lambda>t. \<not> isCompleted t) ?new = ?new"
    by (simp add: filter_id_conv)
  then have "activeTasks_mem (tasks (handleReorder_mem newOrder s)) = ?new"
    by (simp add: activeTasks_mem_def handleReorder_mem_def completedTasks_mem_def)
  moreover have "map sortOrder ?new = map (int \<circ> fst) (enumerate 0 newOrder)"
    by (simp add: case_prod_beta o_def)
  moreover have "map (int \<circ> fst) (enumerate 0 newOrder) = map int [0..<length newOrder]"
    by (simp only: map_map[symmetric] map_fst_enumerate) simp
  ultimately show "map sortOrder (activeTasks_mem (tasks (handleReorder_mem newOrder s)))
           = map int [0..<length newOrder]"
    by simp
  show "undoStack (handleReorder_mem newOrder s) = undoStack s"
    by (simp add: handleReorder_mem_def)
qed

end
